theory Spec2Isabelle
  imports Complex_Main "HOL-Library.Word" "HOL-Library.Sublist"
begin

unbundle bit_operations_syntax

section \<open>The capture-and-ingest pipeline of redbug\_dewey (handlers/handlers.go)\<close>

text \<open>
  The development embeds the capture pipeline of \<^verbatim>\<open>handlers.go\<close>: the length-prefixed
  frame codec, the file-backed FIFO buffer and its RED stand-in, the timed source reader,
  the batch ingester, the capture manager and the status handler.

  The Go code works on the operating system's files. The model makes that environment
  explicit: a file system maps path names to inode numbers and inode numbers to byte
  strings, and an open file is a handle on an inode. Handles and paths are kept apart
  because the code uses both for the same buffer file: \<^verbatim>\<open>FIFOBuffer.Append\<close> writes
  through the handle opened once by \<^verbatim>\<open>NewFIFOBuffer\<close>, while \<^verbatim>\<open>ReadBatch\<close> and
  \<^verbatim>\<open>RemoveBatch\<close> open the path again on every call, and \<^verbatim>\<open>removeBatchFromDisk\<close>
  may rename another inode over the path.

  The model is sequential. Only the failures that the state of the file system decides
  are modelled (a missing path, a path the process may not open, a closed handle, end of
  file); faults of the device (a full disk, a short write) are not.
\<close>

subsection \<open>Bytes and errors\<close>

type_synonym byte = "8 word"
type_synonym bytes = "byte list"
type_synonym u32 = "32 word"

text \<open>
  The causes the model knows: no such file, permission denied, and \<^verbatim>\<open>os.ErrClosed\<close>, the
  use of a closed \<^verbatim>\<open>*os.File\<close>. The \<^verbatim>\<open>os\<close> package wraps a cause with the operation and
  the path or paths.
\<close>

datatype errno = ENOENT | EACCES | ErrClosed

datatype error =
    PathError string string errno  \<comment> \<open>operation, path, cause (\<^verbatim>\<open>*fs.PathError\<close>)\<close>
  | LinkError string string string errno
                                   \<comment> \<open>operation, old path, new path, cause (\<^verbatim>\<open>*os.LinkError\<close>)\<close>
  | EOF                            \<comment> \<open>\<^verbatim>\<open>io.EOF\<close>\<close>
  | ErrAlreadyRunning              \<comment> \<open>\<^verbatim>\<open>errors.New("capture already running")\<close>\<close>
  | StoreError string              \<comment> \<open>an error of the event store, with its message\<close>

fun errno_text :: "errno \<Rightarrow> string" where
  "errno_text ENOENT = ''no such file or directory''"
| "errno_text EACCES = ''permission denied''"
| "errno_text ErrClosed = ''file already closed''"

fun err_Error :: "error \<Rightarrow> string" where
  "err_Error (PathError opn p e) = opn @ '' '' @ p @ '': '' @ errno_text e"
| "err_Error (LinkError opn old new e) =
     opn @ '' '' @ old @ '' '' @ new @ '': '' @ errno_text e"
| "err_Error EOF = ''EOF''"
| "err_Error ErrAlreadyRunning = ''capture already running''"
| "err_Error (StoreError m) = m"

subsection \<open>The file system and open files\<close>

text \<open>
  \<open>names\<close> is the directory, \<open>contents\<close> the data of each inode, \<open>locked\<close> marks the
  inodes the process has no permission to open or truncate, and \<open>next_ino\<close> is the
  number given to the next file created.
\<close>

record filesys =
  names :: "string \<Rightarrow> nat option"
  contents :: "nat \<Rightarrow> bytes"
  locked :: "nat \<Rightarrow> bool"
  next_ino :: nat

record os_file =
  h_name :: string   \<comment> \<open>the path the file was opened with\<close>
  h_ino :: nat
  h_pos :: nat
  h_append :: bool   \<comment> \<open>opened with \<^verbatim>\<open>O_APPEND\<close>\<close>
  h_closed :: bool

definition file_at :: "filesys \<Rightarrow> string \<Rightarrow> bytes option" where
  "file_at fs p = map_option (contents fs) (names fs p)"

text \<open>
  A single \<^verbatim>\<open>Read\<close> of an \<^verbatim>\<open>*os.File\<close> transfers at most \<open>maxRW\<close> bytes (the chunk limit
  of Go's \<^verbatim>\<open>internal/poll\<close>); \<^verbatim>\<open>Write\<close> loops until everything is written.
\<close>

definition maxRW :: nat where
  "maxRW = 2 ^ 30"

definition new_handle :: "string \<Rightarrow> nat \<Rightarrow> bool \<Rightarrow> os_file" where
  "new_handle p i app =
     \<lparr>h_name = p, h_ino = i, h_pos = 0, h_append = app, h_closed = False\<rparr>"

definition create_inode :: "filesys \<Rightarrow> string \<Rightarrow> filesys" where
  "create_inode fs p =
     fs\<lparr>names := (names fs)(p \<mapsto> next_ino fs),
        contents := (contents fs)(next_ino fs := []),
        locked := (locked fs)(next_ino fs := False),
        next_ino := Suc (next_ino fs)\<rparr>"

text \<open>\<^verbatim>\<open>os.Open(path)\<close>: read-only, the file must exist.\<close>

definition os_Open :: "filesys \<Rightarrow> string \<Rightarrow> error + os_file" where
  "os_Open fs p =
     (case names fs p of
        None \<Rightarrow> Inl (PathError ''open'' p ENOENT)
      | Some i \<Rightarrow> if locked fs i then Inl (PathError ''open'' p EACCES)
                  else Inr (new_handle p i False))"

text \<open>\<^verbatim>\<open>os.OpenFile(path, os.O_CREATE|os.O_RDWR|os.O_APPEND, 0644)\<close>.\<close>

definition os_OpenFile_append :: "filesys \<Rightarrow> string \<Rightarrow> error + (os_file \<times> filesys)" where
  "os_OpenFile_append fs p =
     (case names fs p of
        None \<Rightarrow> Inr (new_handle p (next_ino fs) True, create_inode fs p)
      | Some i \<Rightarrow> if locked fs i then Inl (PathError ''open'' p EACCES)
                  else Inr (new_handle p i True, fs))"

text \<open>\<^verbatim>\<open>os.Create(path)\<close>: \<^verbatim>\<open>O_RDWR|O_CREATE|O_TRUNC\<close>.\<close>

definition os_Create :: "filesys \<Rightarrow> string \<Rightarrow> error + (os_file \<times> filesys)" where
  "os_Create fs p =
     (case names fs p of
        None \<Rightarrow> Inr (new_handle p (next_ino fs) False, create_inode fs p)
      | Some i \<Rightarrow> if locked fs i then Inl (PathError ''open'' p EACCES)
                  else Inr (new_handle p i False, fs\<lparr>contents := (contents fs)(i := [])\<rparr>))"

text \<open>
  \<^verbatim>\<open>f.Read(buf)\<close> with \<open>n = len(buf)\<close>: a read into an empty buffer returns at once with
  no error; at or past the end of the data a read returns \<^verbatim>\<open>io.EOF\<close>; otherwise it
  returns the bytes that are there, up to \<open>n\<close>, and no error even when they are fewer.
\<close>

definition f_Read :: "filesys \<Rightarrow> os_file \<Rightarrow> nat \<Rightarrow> error + (bytes \<times> os_file)" where
  "f_Read fs f n =
     (if h_closed f then Inl (PathError ''read'' (h_name f) ErrClosed)
      else if n = 0 then Inr ([], f)
      else (let avail = drop (h_pos f) (contents fs (h_ino f)) in
            if avail = [] then Inl EOF
            else (let bs = take (min n maxRW) avail
                  in Inr (bs, f\<lparr>h_pos := h_pos f + length bs\<rparr>))))"

text \<open>The buffer after a read into a fresh, zeroed buffer of \<open>n\<close> bytes.\<close>

definition filled :: "nat \<Rightarrow> bytes \<Rightarrow> bytes" where
  "filled n bs = bs @ replicate (n - length bs) 0"

datatype whence = SeekStart | SeekCurrent

definition f_Seek :: "os_file \<Rightarrow> nat \<Rightarrow> whence \<Rightarrow> error + os_file" where
  "f_Seek f off w =
     (if h_closed f then Inl (PathError ''seek'' (h_name f) ErrClosed)
      else Inr (case w of SeekStart \<Rightarrow> f\<lparr>h_pos := off\<rparr>
                        | SeekCurrent \<Rightarrow> f\<lparr>h_pos := h_pos f + off\<rparr>))"

text \<open>
  \<^verbatim>\<open>f.Write(data)\<close>: at the end of the file for an \<^verbatim>\<open>O_APPEND\<close> handle, at the handle's
  position otherwise (a gap before it reads as zeros).
\<close>

definition f_Write :: "filesys \<Rightarrow> os_file \<Rightarrow> bytes \<Rightarrow> error + (filesys \<times> os_file)" where
  "f_Write fs f data =
     (if h_closed f then Inl (PathError ''write'' (h_name f) ErrClosed)
      else (let old = contents fs (h_ino f);
                start = (if h_append f then length old else h_pos f);
                new = take start (old @ replicate (start - length old) 0) @ data
                        @ drop (start + length data) old
            in Inr (fs\<lparr>contents := (contents fs)(h_ino f := new)\<rparr>,
                    f\<lparr>h_pos := start + length data\<rparr>)))"

definition f_Stat_Size :: "filesys \<Rightarrow> os_file \<Rightarrow> error + nat" where
  "f_Stat_Size fs f =
     (if h_closed f then Inl (PathError ''stat'' (h_name f) ErrClosed)
      else Inr (length (contents fs (h_ino f))))"

definition f_Close :: "os_file \<Rightarrow> error option \<times> os_file" where
  "f_Close f =
     (if h_closed f then (Some (PathError ''close'' (h_name f) ErrClosed), f)
      else (None, f\<lparr>h_closed := True\<rparr>))"

definition os_Stat_Size :: "filesys \<Rightarrow> string \<Rightarrow> error + nat" where
  "os_Stat_Size fs p =
     (case names fs p of
        None \<Rightarrow> Inl (PathError ''stat'' p ENOENT)
      | Some i \<Rightarrow> Inr (length (contents fs i)))"

definition os_Truncate :: "filesys \<Rightarrow> string \<Rightarrow> nat \<Rightarrow> error option \<times> filesys" where
  "os_Truncate fs p sz =
     (case names fs p of
        None \<Rightarrow> (Some (PathError ''truncate'' p ENOENT), fs)
      | Some i \<Rightarrow>
          if locked fs i then (Some (PathError ''truncate'' p EACCES), fs)
          else (None, fs\<lparr>contents := (contents fs)
                   (i := take sz (contents fs i @ replicate (sz - length (contents fs i)) 0))\<rparr>))"

text \<open>\<^verbatim>\<open>io.ReadAll(f)\<close>: everything from the handle's position to the end.\<close>

definition io_ReadAll :: "filesys \<Rightarrow> os_file \<Rightarrow> error + (bytes \<times> os_file)" where
  "io_ReadAll fs f =
     (if h_closed f then Inl (PathError ''read'' (h_name f) ErrClosed)
      else Inr (drop (h_pos f) (contents fs (h_ino f)),
                f\<lparr>h_pos := max (h_pos f) (length (contents fs (h_ino f)))\<rparr>))"

definition os_Rename :: "filesys \<Rightarrow> string \<Rightarrow> string \<Rightarrow> error option \<times> filesys" where
  "os_Rename fs old new =
     (case names fs old of
        None \<Rightarrow> (Some (LinkError ''rename'' old new ENOENT), fs)
      | Some i \<Rightarrow> if old = new then (None, fs)
                  else (None, fs\<lparr>names := ((names fs)(new \<mapsto> i))(old := None)\<rparr>))"

subsection \<open>The frame codec\<close>

text \<open>The four header bytes of \<^verbatim>\<open>writeLengthPrefixed\<close>, most significant first.\<close>

definition put_be32 :: "u32 \<Rightarrow> bytes" where
  "put_be32 l = [ucast (drop_bit 24 l), ucast (drop_bit 16 l), ucast (drop_bit 8 l), ucast l]"

text \<open>The length decoded from \<^verbatim>\<open>lenBuf\<close> by the two readers.\<close>

definition be32 :: "bytes \<Rightarrow> u32" where
  "be32 lenBuf =
     push_bit 24 (ucast (lenBuf ! 0)) OR push_bit 16 (ucast (lenBuf ! 1))
       OR push_bit 8 (ucast (lenBuf ! 2)) OR ucast (lenBuf ! 3)"

text \<open>
  \<^verbatim>\<open>writeLengthPrefixed(f, data)\<close>: \<^verbatim>\<open>uint32(len(data))\<close> keeps the low 32 bits of the
  length; nothing compares the length with a bound.
\<close>

definition writeLengthPrefixed ::
  "filesys \<Rightarrow> os_file \<Rightarrow> bytes \<Rightarrow> error option \<times> os_file \<times> filesys" where
  "writeLengthPrefixed fs f data =
     (let l = (of_nat (length data) :: u32);
          lenBuf = put_be32 l
      in case f_Write fs f lenBuf of
           Inl e \<Rightarrow> (Some e, f, fs)
         | Inr (fs1, f1) \<Rightarrow>
             (case f_Write fs1 f1 data of
                Inl e \<Rightarrow> (Some e, f1, fs1)
              | Inr (fs2, f2) \<Rightarrow> (None, f2, fs2)))"

text \<open>
  The loop of \<^verbatim>\<open>readBatchFromDisk\<close>, with the number of iterations left. Either read
  failing ends the loop with the batch so far. A payload read that returns fewer bytes
  than the header announced is no error: the rest of \<^verbatim>\<open>buf\<close> stays zero.
\<close>

fun readFrames :: "filesys \<Rightarrow> nat \<Rightarrow> os_file \<Rightarrow> bytes list \<Rightarrow> bytes list" where
  "readFrames fs 0 f batch = batch"
| "readFrames fs (Suc k) f batch =
     (case f_Read fs f 4 of
        Inl e \<Rightarrow> batch
      | Inr (hdr, f1) \<Rightarrow>
          (let l = be32 (filled 4 hdr) in
           case f_Read fs f1 (unat l) of
             Inl e \<Rightarrow> batch
           | Inr (body, f2) \<Rightarrow> readFrames fs k f2 (batch @ [filled (unat l) body])))"

definition readBatchFromDisk :: "filesys \<Rightarrow> string \<Rightarrow> int \<Rightarrow> error + bytes list" where
  "readBatchFromDisk fs p mx =
     (case os_Open fs p of
        Inl e \<Rightarrow> Inl e
      | Inr f \<Rightarrow> Inr (readFrames fs (nat mx) f []))"

text \<open>
  The first loop of \<^verbatim>\<open>removeBatchFromDisk\<close>: it adds up the sizes of the frames it walks
  over and returns the offset and the handle.
\<close>

fun skipFrames :: "filesys \<Rightarrow> nat \<Rightarrow> os_file \<Rightarrow> nat \<Rightarrow> nat \<times> os_file" where
  "skipFrames fs 0 f offset = (offset, f)"
| "skipFrames fs (Suc k) f offset =
     (case f_Read fs f 4 of
        Inl e \<Rightarrow> (offset, f)
      | Inr (hdr, f1) \<Rightarrow>
          (let l = be32 (filled 4 hdr);
               offset' = offset + 4 + unat l
           in case f_Seek f1 (unat l) SeekCurrent of
                Inl e \<Rightarrow> (offset', f1)
              | Inr f2 \<Rightarrow> skipFrames fs k f2 offset'))"

definition removeBatchFromDisk :: "filesys \<Rightarrow> string \<Rightarrow> int \<Rightarrow> error option \<times> filesys" where
  "removeBatchFromDisk fs p n =
     (case os_Open fs p of
        Inl e \<Rightarrow> (Some e, fs)
      | Inr f \<Rightarrow>
          (let (offset, f1) = skipFrames fs (nat n) f 0 in
           case os_Stat_Size fs p of
             Inl e \<Rightarrow> (Some e, fs)
           | Inr sz \<Rightarrow>
               if offset \<ge> sz then os_Truncate fs p 0
               else (let f2 = (case f_Seek f1 offset SeekStart of Inl e \<Rightarrow> f1 | Inr g \<Rightarrow> g) in
                     case io_ReadAll fs f2 of
                       Inl e \<Rightarrow> (Some e, fs)
                     | Inr (rest, f3) \<Rightarrow>
                         (case os_Create fs (p @ ''.tmp'') of
                            Inl e \<Rightarrow> (Some e, fs)
                          | Inr (tmp, fs1) \<Rightarrow>
                              (case f_Write fs1 tmp rest of
                                 Inl e \<Rightarrow> (Some e, fs1)
                               | Inr (fs2, tmp') \<Rightarrow> os_Rename fs2 (p @ ''.tmp'') p)))))"

text \<open>
  A frame as \<^verbatim>\<open>writeLengthPrefixed\<close> lays it out for a record whose length fits the
  header, and a file of frames.
\<close>

definition frame :: "bytes \<Rightarrow> bytes" where
  "frame r = put_be32 (of_nat (length r)) @ r"

definition encode_frames :: "bytes list \<Rightarrow> bytes" where
  "encode_frames rs = concat (map frame rs)"

subsection \<open>The buffers\<close>

text \<open>
  A Go method call on a nil pointer that touches a field panics. Calls that can meet such
  a pointer return a \<open>run\<close>.
\<close>

datatype 'a run = Returns 'a | Panics

record FIFOBuffer =
  path :: string
  file_handle :: os_file

definition NewFIFOBuffer :: "filesys \<Rightarrow> string \<Rightarrow> error + (FIFOBuffer \<times> filesys)" where
  "NewFIFOBuffer fs p =
     (case os_OpenFile_append fs p of
        Inl e \<Rightarrow> Inl e
      | Inr (f, fs') \<Rightarrow> Inr (\<lparr>path = p, file_handle = f\<rparr>, fs'))"

definition FIFO_Append ::
  "filesys \<Rightarrow> FIFOBuffer \<Rightarrow> bytes \<Rightarrow> error option \<times> FIFOBuffer \<times> filesys" where
  "FIFO_Append fs b data =
     (case writeLengthPrefixed fs (file_handle b) data of (e, f', fs') \<Rightarrow> (e, b\<lparr>file_handle := f'\<rparr>, fs'))"

definition FIFO_ReadBatch :: "filesys \<Rightarrow> FIFOBuffer \<Rightarrow> int \<Rightarrow> error + bytes list" where
  "FIFO_ReadBatch fs b mx = readBatchFromDisk fs (path b) mx"

definition FIFO_RemoveBatch :: "filesys \<Rightarrow> FIFOBuffer \<Rightarrow> int \<Rightarrow> error option \<times> filesys" where
  "FIFO_RemoveBatch fs b n = removeBatchFromDisk fs (path b) n"

definition FIFO_Len :: "filesys \<Rightarrow> FIFOBuffer \<Rightarrow> int" where
  "FIFO_Len fs b =
     (case FIFO_ReadBatch fs b 1000000 of Inl e \<Rightarrow> 0 | Inr batch \<Rightarrow> int (length batch))"

definition FIFO_SizeBytes :: "filesys \<Rightarrow> FIFOBuffer \<Rightarrow> int" where
  "FIFO_SizeBytes fs b =
     (case f_Stat_Size fs (file_handle b) of Inl e \<Rightarrow> 0 | Inr n \<Rightarrow> int n)"

definition FIFO_Close :: "FIFOBuffer \<Rightarrow> error option \<times> FIFOBuffer" where
  "FIFO_Close b = (case f_Close (file_handle b) of (e, f') \<Rightarrow> (e, b\<lparr>file_handle := f'\<rparr>))"

record REDBuffer =
  fifo :: FIFOBuffer

definition NewREDBuffer :: "filesys \<Rightarrow> string \<Rightarrow> error + (REDBuffer \<times> filesys)" where
  "NewREDBuffer fs p =
     (case NewFIFOBuffer fs p of
        Inl e \<Rightarrow> Inl e
      | Inr (b, fs') \<Rightarrow> Inr (\<lparr>fifo = b\<rparr>, fs'))"

definition RED_Append ::
  "filesys \<Rightarrow> REDBuffer \<Rightarrow> bytes \<Rightarrow> error option \<times> REDBuffer \<times> filesys" where
  "RED_Append fs rb data =
     (case FIFO_Append fs (fifo rb) data of (e, b', fs') \<Rightarrow> (e, rb\<lparr>fifo := b'\<rparr>, fs'))"

definition RED_ReadBatch :: "filesys \<Rightarrow> REDBuffer \<Rightarrow> int \<Rightarrow> error + bytes list" where
  "RED_ReadBatch fs rb mx = FIFO_ReadBatch fs (fifo rb) mx"

definition RED_RemoveBatch :: "filesys \<Rightarrow> REDBuffer \<Rightarrow> int \<Rightarrow> error option \<times> filesys" where
  "RED_RemoveBatch fs rb n = FIFO_RemoveBatch fs (fifo rb) n"

definition RED_Len :: "filesys \<Rightarrow> REDBuffer \<Rightarrow> int" where
  "RED_Len fs rb = FIFO_Len fs (fifo rb)"

definition RED_SizeBytes :: "filesys \<Rightarrow> REDBuffer \<Rightarrow> int" where
  "RED_SizeBytes fs rb = FIFO_SizeBytes fs (fifo rb)"

definition RED_Close :: "REDBuffer \<Rightarrow> error option \<times> REDBuffer" where
  "RED_Close rb = (case FIFO_Close (fifo rb) of (e, b') \<Rightarrow> (e, rb\<lparr>fifo := b'\<rparr>))"

text \<open>
  A value of the interface \<^verbatim>\<open>CaptureBuffer\<close>: the dynamic type and the pointer, which may
  be nil. (A nil \<^verbatim>\<open>*FIFOBuffer\<close> stored in the interface is not the nil interface.)
\<close>

datatype CaptureBuffer = FIFO "FIFOBuffer option" | RED "REDBuffer option"

definition cb_Append ::
  "filesys \<Rightarrow> CaptureBuffer \<Rightarrow> bytes \<Rightarrow> (error option \<times> CaptureBuffer \<times> filesys) run" where
  "cb_Append fs cb data =
     (case cb of
        FIFO None \<Rightarrow> Panics
      | FIFO (Some b) \<Rightarrow>
          (case FIFO_Append fs b data of (e, b', fs') \<Rightarrow> Returns (e, FIFO (Some b'), fs'))
      | RED None \<Rightarrow> Panics
      | RED (Some rb) \<Rightarrow>
          (case RED_Append fs rb data of (e, rb', fs') \<Rightarrow> Returns (e, RED (Some rb'), fs')))"

definition cb_ReadBatch :: "filesys \<Rightarrow> CaptureBuffer \<Rightarrow> int \<Rightarrow> (error + bytes list) run" where
  "cb_ReadBatch fs cb mx =
     (case cb of
        FIFO None \<Rightarrow> Panics
      | FIFO (Some b) \<Rightarrow> Returns (FIFO_ReadBatch fs b mx)
      | RED None \<Rightarrow> Panics
      | RED (Some rb) \<Rightarrow> Returns (RED_ReadBatch fs rb mx))"

definition cb_RemoveBatch ::
  "filesys \<Rightarrow> CaptureBuffer \<Rightarrow> int \<Rightarrow> (error option \<times> filesys) run" where
  "cb_RemoveBatch fs cb n =
     (case cb of
        FIFO None \<Rightarrow> Panics
      | FIFO (Some b) \<Rightarrow> Returns (FIFO_RemoveBatch fs b n)
      | RED None \<Rightarrow> Panics
      | RED (Some rb) \<Rightarrow> Returns (RED_RemoveBatch fs rb n))"

definition cb_Len :: "filesys \<Rightarrow> CaptureBuffer \<Rightarrow> int run" where
  "cb_Len fs cb =
     (case cb of
        FIFO None \<Rightarrow> Panics
      | FIFO (Some b) \<Rightarrow> Returns (FIFO_Len fs b)
      | RED None \<Rightarrow> Panics
      | RED (Some rb) \<Rightarrow> Returns (RED_Len fs rb))"

definition cb_SizeBytes :: "filesys \<Rightarrow> CaptureBuffer \<Rightarrow> int run" where
  "cb_SizeBytes fs cb =
     (case cb of
        FIFO None \<Rightarrow> Panics
      | FIFO (Some b) \<Rightarrow> Returns (FIFO_SizeBytes fs b)
      | RED None \<Rightarrow> Panics
      | RED (Some rb) \<Rightarrow> Returns (RED_SizeBytes fs rb))"

definition cb_Close :: "CaptureBuffer \<Rightarrow> (error option \<times> CaptureBuffer) run" where
  "cb_Close cb =
     (case cb of
        FIFO None \<Rightarrow> Panics
      | FIFO (Some b) \<Rightarrow> (case FIFO_Close b of (e, b') \<Rightarrow> Returns (e, FIFO (Some b')))
      | RED None \<Rightarrow> Panics
      | RED (Some rb) \<Rightarrow> (case RED_Close rb of (e, rb') \<Rightarrow> Returns (e, RED (Some rb'))))"

text \<open>
  The strategy selection of \<^verbatim>\<open>StartSimulatedCapture\<close>. On failure the constructor's nil
  pointer is what the assignment stores in the interface.
\<close>

type_synonym BufferStrategy = string

definition BufferFIFO :: BufferStrategy where "BufferFIFO = ''fifo''"
definition BufferRED :: BufferStrategy where "BufferRED = ''red''"

definition select_buffer ::
  "BufferStrategy \<Rightarrow> filesys \<Rightarrow> string \<Rightarrow> CaptureBuffer \<times> error option \<times> filesys" where
  "select_buffer strategy fs p =
     (if strategy = ''red''
      then (case NewREDBuffer fs p of
              Inl e \<Rightarrow> (RED None, Some e, fs)
            | Inr (rb, fs') \<Rightarrow> (RED (Some rb), None, fs'))
      else (case NewFIFOBuffer fs p of
              Inl e \<Rightarrow> (FIFO None, Some e, fs)
            | Inr (b, fs') \<Rightarrow> (FIFO (Some b), None, fs')))"

text \<open>
  To speak of every operation of the contract at once: an operation with its input, what
  it returns, and a run of operations on one buffer.
\<close>

datatype buffer_op =
  Append bytes | ReadBatch int | RemoveBatch int | Len | SizeBytes | Close

datatype op_result =
  ErrResult "error option" | BatchResult "error + bytes list" | IntResult int

definition cb_apply ::
  "filesys \<Rightarrow> CaptureBuffer \<Rightarrow> buffer_op \<Rightarrow> (op_result \<times> CaptureBuffer \<times> filesys) run" where
  "cb_apply fs cb opn =
     (case opn of
        Append data \<Rightarrow>
          (case cb_Append fs cb data of
             Panics \<Rightarrow> Panics
           | Returns (e, cb', fs') \<Rightarrow> Returns (ErrResult e, cb', fs'))
      | ReadBatch mx \<Rightarrow>
          (case cb_ReadBatch fs cb mx of
             Panics \<Rightarrow> Panics
           | Returns r \<Rightarrow> Returns (BatchResult r, cb, fs))
      | RemoveBatch n \<Rightarrow>
          (case cb_RemoveBatch fs cb n of
             Panics \<Rightarrow> Panics
           | Returns (e, fs') \<Rightarrow> Returns (ErrResult e, cb, fs'))
      | Len \<Rightarrow>
          (case cb_Len fs cb of Panics \<Rightarrow> Panics | Returns n \<Rightarrow> Returns (IntResult n, cb, fs))
      | SizeBytes \<Rightarrow>
          (case cb_SizeBytes fs cb of
             Panics \<Rightarrow> Panics
           | Returns n \<Rightarrow> Returns (IntResult n, cb, fs))
      | Close \<Rightarrow>
          (case cb_Close cb of
             Panics \<Rightarrow> Panics
           | Returns (e, cb') \<Rightarrow> Returns (ErrResult e, cb', fs)))"

fun cb_run ::
  "filesys \<Rightarrow> CaptureBuffer \<Rightarrow> buffer_op list \<Rightarrow> (op_result list \<times> CaptureBuffer \<times> filesys) run"
where
  "cb_run fs cb [] = Returns ([], cb, fs)"
| "cb_run fs cb (opn # ops) =
     (case cb_apply fs cb opn of
        Panics \<Rightarrow> Panics
      | Returns (r, cb', fs') \<Rightarrow>
          (case cb_run fs' cb' ops of
             Panics \<Rightarrow> Panics
           | Returns (rs, cb'', fs'') \<Rightarrow> Returns (r # rs, cb'', fs'')))"

text \<open>The FIFO buffer a variant works on (the nil pointer has none).\<close>

fun backing_fifo :: "CaptureBuffer \<Rightarrow> FIFOBuffer option" where
  "backing_fifo (FIFO b) = b"
| "backing_fifo (RED None) = None"
| "backing_fifo (RED (Some rb)) = Some (fifo rb)"

text \<open>
  What an observer of a run sees: the error of the constructor, or the results of the
  operations, the state of the underlying FIFO buffer and the file system.
\<close>

definition observe_run ::
  "BufferStrategy \<Rightarrow> filesys \<Rightarrow> string \<Rightarrow> buffer_op list
     \<Rightarrow> (error + op_result list \<times> FIFOBuffer option \<times> filesys) run" where
  "observe_run strategy fs p ops =
     (case select_buffer strategy fs p of
        (cb, Some e, fs') \<Rightarrow> Returns (Inl e)
      | (cb, None, fs') \<Rightarrow>
          (case cb_run fs' cb ops of
             Panics \<Rightarrow> Panics
           | Returns (rs, cb', fs'') \<Rightarrow> Returns (Inr (rs, backing_fifo cb', fs''))))"

text \<open>Appending the records of a list in order, stopping at the first error.\<close>

fun append_all ::
  "filesys \<Rightarrow> FIFOBuffer \<Rightarrow> bytes list \<Rightarrow> error option \<times> FIFOBuffer \<times> filesys" where
  "append_all fs b [] = (None, b, fs)"
| "append_all fs b (r # rs) =
     (case FIFO_Append fs b r of
        (Some e, b', fs') \<Rightarrow> (Some e, b', fs')
      | (None, b', fs') \<Rightarrow> append_all fs' b' rs)"

subsection \<open>The capture manager\<close>

text \<open>A \<^verbatim>\<open>time.Time\<close> is counted in nanoseconds from the zero time.\<close>

type_synonym gotime = int

record CaptureStatus =
  BufferLen :: int
  DiskBufferBytes :: int
  Ingesting :: bool
  Stopped :: bool
  LastError :: string
  Ingested :: int
  LastUpdated :: gotime
  IngestRateEPS :: real
  ErrorCount :: int

definition zero_status :: CaptureStatus where
  "zero_status =
     \<lparr>BufferLen = 0, DiskBufferBytes = 0, Ingesting = False, Stopped = False, LastError = [],
      Ingested = 0, LastUpdated = 0, IngestRateEPS = 0, ErrorCount = 0\<rparr>"

text \<open>
  \<open>cm_stopCh\<close> is \<open>None\<close> for the nil channel and \<open>Some c\<close> for a channel, closed when
  \<open>c\<close> holds. \<open>cm_bufferImpl\<close> is \<open>None\<close> for the nil interface.
\<close>

record CaptureManager =
  cm_buffer :: "bytes list"
  cm_file :: "os_file option"
  cm_bufferFilePath :: string
  cm_bufferImpl :: "CaptureBuffer option"
  cm_bufferStrategy :: BufferStrategy
  cm_stopCh :: "bool option"
  cm_stopped :: bool
  cm_ingesting :: bool
  cm_lastStatus :: CaptureStatus

text \<open>The package variable \<^verbatim>\<open>captureManager = &CaptureManager{}\<close>.\<close>

definition captureManager :: CaptureManager where
  "captureManager =
     \<lparr>cm_buffer = [], cm_file = None, cm_bufferFilePath = [], cm_bufferImpl = None,
      cm_bufferStrategy = [], cm_stopCh = None, cm_stopped = False, cm_ingesting = False,
      cm_lastStatus = zero_status\<rparr>"

text \<open>
  \<^verbatim>\<open>StartSimulatedCapture(logPath)\<close>, up to the launch of the two loops, which are
  functions of their own below. \<open>now\<close> is the reading of the clock.
\<close>

definition StartSimulatedCapture ::
  "filesys \<Rightarrow> CaptureManager \<Rightarrow> string \<Rightarrow> gotime \<Rightarrow> error option \<times> CaptureManager \<times> filesys"
where
  "StartSimulatedCapture fs cm logPath now =
     (if cm_ingesting cm then (Some ErrAlreadyRunning, cm, fs)
      else
        (case os_Open fs logPath of
           Inl e \<Rightarrow> (Some e, cm, fs)
         | Inr f \<Rightarrow>
             (let cm1 = cm\<lparr>cm_file := Some f, cm_buffer := [], cm_stopCh := Some False,
                            cm_stopped := False, cm_ingesting := True,
                            cm_lastStatus :=
                              zero_status\<lparr>Ingesting := True, Stopped := False,
                                           LastUpdated := now\<rparr>,
                            cm_bufferFilePath := ''capture_buffer.dat''\<rparr>
              in case select_buffer (cm_bufferStrategy cm1) fs (cm_bufferFilePath cm1) of
                   (cb, Some e, fs') \<Rightarrow>
                     (Some e,
                      cm1\<lparr>cm_bufferImpl := Some cb, cm_file := Some (snd (f_Close f))\<rparr>, fs')
                 | (cb, None, fs') \<Rightarrow> (None, cm1\<lparr>cm_bufferImpl := Some cb\<rparr>, fs'))))"

text \<open>\<^verbatim>\<open>StopSimulatedCapture()\<close>; closing a closed channel panics.\<close>

definition StopSimulatedCapture :: "CaptureManager \<Rightarrow> CaptureManager run" where
  "StopSimulatedCapture cm =
     (if cm_stopped cm then Returns cm
      else if cm_stopCh cm = Some True then Panics
      else
        (let cm1 = cm\<lparr>cm_stopped := True,
                       cm_stopCh := map_option (\<lambda>c. True) (cm_stopCh cm),
                       cm_file := None\<rparr>
         in case cm_bufferImpl cm1 of
              None \<Rightarrow> Returns (cm1\<lparr>cm_ingesting := False\<rparr>)
            | Some cb \<Rightarrow>
                (case cb_Close cb of
                   Panics \<Rightarrow> Panics
                 | Returns r \<Rightarrow> Returns (cm1\<lparr>cm_bufferImpl := None, cm_ingesting := False\<rparr>))))"

definition GetCaptureStatus :: "filesys \<Rightarrow> CaptureManager \<Rightarrow> gotime \<Rightarrow> CaptureStatus run" where
  "GetCaptureStatus fs cm now =
     (let status = (cm_lastStatus cm)\<lparr>BufferLen := int (length (cm_buffer cm)),
                                      Ingesting := cm_ingesting cm,
                                      Stopped := cm_stopped cm,
                                      LastUpdated := now\<rparr>
      in case cm_bufferImpl cm of
           None \<Rightarrow> Returns status
         | Some cb \<Rightarrow>
             (case cb_SizeBytes fs cb of
                Panics \<Rightarrow> Panics
              | Returns n \<Rightarrow> Returns (status\<lparr>DiskBufferBytes := n\<rparr>)))"

subsection \<open>The status handler\<close>

text \<open>The verbs \<^verbatim>\<open>%d\<close> and \<^verbatim>\<open>%v\<close> (of a bool) of \<^verbatim>\<open>fmt\<close>.\<close>

fun nat_str :: "nat \<Rightarrow> string" where
  "nat_str n =
     (if n < 10 then [char_of (48 + n)]
      else nat_str (n div 10) @ [char_of (48 + n mod 10)])"

declare nat_str.simps [simp del]

definition fmt_d :: "int \<Rightarrow> string" where
  "fmt_d i = (if i < 0 then CHR ''-'' # nat_str (nat (- i)) else nat_str (nat i))"

definition fmt_v :: "bool \<Rightarrow> string" where
  "fmt_v b = (if b then ''true'' else ''false'')"

definition newline :: char where
  "newline = CHR 0x0A"

text \<open>
  \<^verbatim>\<open>CaptureStatusHandler\<close> returns the response body. The renderings of the time
  (\<^verbatim>\<open>Format(time.RFC3339)\<close>) and of the rate (\<^verbatim>\<open>%.2f\<close>) are parameters.
\<close>

definition CaptureStatusHandler ::
  "(gotime \<Rightarrow> string) \<Rightarrow> (real \<Rightarrow> string) \<Rightarrow> filesys \<Rightarrow> CaptureManager \<Rightarrow> gotime \<Rightarrow> string run"
where
  "CaptureStatusHandler rfc3339 fmt_f2 fs cm now =
     (case GetCaptureStatus fs cm now of
        Panics \<Rightarrow> Panics
      | Returns status \<Rightarrow>
          Returns
            (''BufferLen: '' @ fmt_d (BufferLen status) @ [newline]
             @ ''Ingesting: '' @ fmt_v (Ingesting status) @ [newline]
             @ ''Stopped: '' @ fmt_v (Stopped status) @ [newline]
             @ ''Ingested: '' @ fmt_d (Ingested status) @ [newline]
             @ ''LastError: '' @ LastError status @ [newline]
             @ ''LastUpdated: '' @ rfc3339 (LastUpdated status) @ [newline]
             @ ''IngestRateEPS: '' @ fmt_f2 (IngestRateEPS status) @ [newline]
             @ ''ErrorCount: '' @ fmt_d (ErrorCount status) @ [newline]))"

text \<open>The lines of a body, and whether one of them gives a key.\<close>

fun split_lines :: "string \<Rightarrow> string list" where
  "split_lines [] = [[]]"
| "split_lines (c # cs) =
     (if c = newline then [] # split_lines cs
      else (case split_lines cs of
              [] \<Rightarrow> [[c]]
            | l # ls \<Rightarrow> (c # l) # ls))"

definition has_key_line :: "string \<Rightarrow> string \<Rightarrow> bool" where
  "has_key_line key body = list_ex (\<lambda>l. prefix (key @ '': '') l) (split_lines body)"

text \<open>Whether a response has a body with a line for a key.\<close>

definition response_has_key :: "string \<Rightarrow> string run \<Rightarrow> bool" where
  "response_has_key key r = (case r of Panics \<Rightarrow> False | Returns body \<Rightarrow> has_key_line key body)"

subsection \<open>The timed source reader\<close>

text \<open>
  A \<^verbatim>\<open>float64\<close> is a finite value, an infinity or NaN (\<^verbatim>\<open>strconv.ParseFloat\<close> returns
  all of them). A finite value is given by the real number it denotes; the sign of a zero
  is not kept, which no comparison sees. Every arithmetic operation rounds its exact
  result to the nearest \<^verbatim>\<open>float64\<close>, ties to even, as IEEE 754 binary64 does.
\<close>

datatype f64 = Fin real | PInf | NInf | NaN

text \<open>Rounding to the nearest integer, a tie to the even one.\<close>

definition round_half_even :: "real \<Rightarrow> int" where
  "round_half_even q =
     (let f = \<lfloor>q\<rfloor>; d = q - of_int f
      in if d < 1 / 2 then f else if 1 / 2 < d then f + 1 else if even f then f else f + 1)"

text \<open>
  The binade of a magnitude: \<open>exp_search n s\<close> is the largest \<open>k\<close> from 1 to \<open>n\<close> with
  \<open>2 ^ k \<le> s\<close>, and 0 when there is none. For \<open>s = \<bar>x\<bar> * 2 ^ 1022\<close> and \<open>n = 2045\<close> this
  is the biased exponent of \<open>x\<close> less one (0 for the subnormal numbers and the smallest
  binade, 2045 for everything from \<open>2 ^ 1023\<close> on), and neighbouring \<^verbatim>\<open>float64\<close> values
  around \<open>x\<close> are \<open>2 ^ k / 2 ^ 1074\<close> apart.
\<close>

fun exp_search :: "nat \<Rightarrow> real \<Rightarrow> nat" where
  "exp_search 0 s = 0"
| "exp_search (Suc k) s = (if 2 ^ Suc k \<le> s then Suc k else exp_search k s)"

text \<open>
  The \<^verbatim>\<open>float64\<close> nearest to a real number: the number is rounded to a multiple of the
  spacing of its binade, and a result of magnitude \<open>2 ^ 1024\<close> or more overflows to an
  infinity.
\<close>

definition round64 :: "real \<Rightarrow> f64" where
  "round64 x =
     (let k = exp_search 2045 (\<bar>x\<bar> * 2 ^ 1022);
          r = of_int (round_half_even (x * 2 ^ 1074 / 2 ^ k)) * 2 ^ k / 2 ^ 1074
      in if 2 ^ 1024 \<le> r then PInf else if r \<le> - (2 ^ 1024) then NInf else Fin r)"

text \<open>Subtraction, multiplication and \<^verbatim>\<open><\<close> of \<^verbatim>\<open>float64\<close>.\<close>

fun f_sub :: "f64 \<Rightarrow> f64 \<Rightarrow> f64" where
  "f_sub (Fin a) (Fin b) = round64 (a - b)"
| "f_sub NaN y = NaN"
| "f_sub x NaN = NaN"
| "f_sub PInf PInf = NaN"
| "f_sub NInf NInf = NaN"
| "f_sub PInf y = PInf"
| "f_sub NInf y = NInf"
| "f_sub (Fin a) PInf = NInf"
| "f_sub (Fin a) NInf = PInf"

definition signed_inf :: "real \<Rightarrow> f64" where
  "signed_inf a = (if a = 0 then NaN else if 0 < a then PInf else NInf)"

fun f_mul :: "f64 \<Rightarrow> f64 \<Rightarrow> f64" where
  "f_mul (Fin a) (Fin b) = round64 (a * b)"
| "f_mul NaN y = NaN"
| "f_mul x NaN = NaN"
| "f_mul PInf PInf = PInf"
| "f_mul PInf NInf = NInf"
| "f_mul NInf PInf = NInf"
| "f_mul NInf NInf = PInf"
| "f_mul (Fin a) PInf = signed_inf a"
| "f_mul (Fin a) NInf = signed_inf (- a)"
| "f_mul PInf (Fin b) = signed_inf b"
| "f_mul NInf (Fin b) = signed_inf (- b)"

fun f_less :: "f64 \<Rightarrow> f64 \<Rightarrow> bool" where
  "f_less (Fin a) (Fin b) = (a < b)"
| "f_less NaN y = False"
| "f_less x NaN = False"
| "f_less x NInf = False"
| "f_less PInf y = False"
| "f_less NInf y = True"
| "f_less (Fin a) PInf = True"

text \<open>
  The conversion of a \<^verbatim>\<open>float64\<close> to \<^verbatim>\<open>int64\<close> drops the fraction. Go leaves the result
  open for a value that \<^verbatim>\<open>int64\<close> cannot hold; the model gives \<open>None\<close> there.
\<close>

definition trunc :: "real \<Rightarrow> int" where
  "trunc x = (if 0 \<le> x then \<lfloor>x\<rfloor> else \<lceil>x\<rceil>)"

fun to_int64 :: "f64 \<Rightarrow> int option" where
  "to_int64 (Fin x) =
     (if - (2 ^ 63) \<le> trunc x \<and> trunc x < 2 ^ 63 then Some (trunc x) else None)"
| "to_int64 x = None"

text \<open>
  \<^verbatim>\<open>time.Duration(delta * float64(time.Second))\<close>, in nanoseconds: the product is a
  \<^verbatim>\<open>float64\<close> multiplication by \<open>10 ^ 9\<close>.
\<close>

definition duration_of :: "f64 \<Rightarrow> int option" where
  "duration_of delta = to_int64 (f_mul delta (Fin 1000000000))"

text \<open>The bytes before the first space or tab of a line, if it has one.\<close>

fun ts_prefix :: "bytes \<Rightarrow> bytes option" where
  "ts_prefix [] = None"
| "ts_prefix (b # bs) =
     (if b = 32 \<or> b = 9 then Some [] else map_option ((#) b) (ts_prefix bs))"

text \<open>\<open>parseFloat s\<close> is \<^verbatim>\<open>strconv.ParseFloat(s, 64)\<close>, \<open>None\<close> when it returns an error.\<close>

definition leading_timestamp :: "(bytes \<Rightarrow> f64 option) \<Rightarrow> bytes \<Rightarrow> f64 option" where
  "leading_timestamp parseFloat line =
     (case ts_prefix line of None \<Rightarrow> None | Some tsStr \<Rightarrow> parseFloat tsStr)"

record reader =
  lastTimestamp :: f64
  first :: bool

text \<open>
  The timing block of \<^verbatim>\<open>captureLoop\<close> for one line: the duration slept, if the code
  sleeps, and the reader's variables afterwards.
\<close>

definition timing :: "f64 option \<Rightarrow> reader \<Rightarrow> int option \<times> reader" where
  "timing parsed st =
     (case parsed of
        None \<Rightarrow> (None, st)
      | Some ts \<Rightarrow>
          if first st then (None, st\<lparr>lastTimestamp := ts, first := False\<rparr>)
          else (let delta = f_sub ts (lastTimestamp st)
                in (if f_less (Fin 0) delta \<and> f_less delta (Fin 10) then duration_of delta
                    else None,
                    st\<lparr>lastTimestamp := ts\<rparr>)))"

text \<open>What the reader did for a line: the sleep before it, and the line handed on.\<close>

record forwarded =
  slept :: "int option"
  payload :: bytes

text \<open>
  The loop of \<^verbatim>\<open>captureLoop\<close> over the tokens of the scanner. The flag of the result
  says whether the loop left through the stop channel.
\<close>

fun captureLines ::
  "(bytes \<Rightarrow> f64 option) \<Rightarrow> filesys \<Rightarrow> CaptureManager \<Rightarrow> reader \<Rightarrow> bytes list \<Rightarrow> forwarded list
     \<Rightarrow> (bool \<times> forwarded list \<times> CaptureManager \<times> filesys) run" where
  "captureLines parseFloat fs cm st [] out = Returns (False, out, cm, fs)"
| "captureLines parseFloat fs cm st (line # lines) out =
     (if cm_stopCh cm = Some True then Returns (True, out, cm, fs)
      else
        (let (w, st') = timing (leading_timestamp parseFloat line) st;
             out' = out @ [\<lparr>slept = w, payload = line\<rparr>]
         in case cm_bufferImpl cm of
              Some cb \<Rightarrow>
                (case cb_Append fs cb line of
                   Panics \<Rightarrow> Panics
                 | Returns (e, cb', fs') \<Rightarrow>
                     captureLines parseFloat fs' (cm\<lparr>cm_bufferImpl := Some cb'\<rparr>) st' lines out')
            | None \<Rightarrow>
                captureLines parseFloat fs (cm\<lparr>cm_buffer := cm_buffer cm @ [line]\<rparr>) st' lines out'))"

text \<open>
  \<^verbatim>\<open>captureLoop\<close>: \<open>lines\<close> are the tokens \<^verbatim>\<open>scanner.Scan\<close> delivers and \<open>scanErr\<close> is
  \<^verbatim>\<open>scanner.Err()\<close> after the last one.
\<close>

definition captureLoop ::
  "(bytes \<Rightarrow> f64 option) \<Rightarrow> filesys \<Rightarrow> CaptureManager \<Rightarrow> bytes list \<Rightarrow> error option
     \<Rightarrow> (forwarded list \<times> CaptureManager \<times> filesys) run" where
  "captureLoop parseFloat fs cm lines scanErr =
     (case captureLines parseFloat fs cm \<lparr>lastTimestamp = Fin 0, first = True\<rparr> lines [] of
        Panics \<Rightarrow> Panics
      | Returns (stop, out, cm', fs') \<Rightarrow>
          if stop then Returns (out, cm', fs')
          else (case scanErr of
                  None \<Rightarrow> Returns (out, cm', fs')
                | Some e \<Rightarrow>
                    Returns (out,
                             cm'\<lparr>cm_lastStatus := (cm_lastStatus cm')\<lparr>LastError := err_Error e\<rparr>\<rparr>,
                             fs')))"

text \<open>The manager's buffer is usable when it is not an interface holding a nil pointer.\<close>

definition buffer_usable :: "CaptureManager \<Rightarrow> bool" where
  "buffer_usable cm =
     (case cm_bufferImpl cm of
        Some (FIFO None) \<Rightarrow> False
      | Some (RED None) \<Rightarrow> False
      | _ \<Rightarrow> True)"

text \<open>The trace of the reader as a function of the lines and the reader's variables alone.\<close>

fun timings :: "(bytes \<Rightarrow> f64 option) \<Rightarrow> reader \<Rightarrow> bytes list \<Rightarrow> forwarded list" where
  "timings parseFloat st [] = []"
| "timings parseFloat st (line # lines) =
     (case timing (leading_timestamp parseFloat line) st of
        (w, st') \<Rightarrow> \<lparr>slept = w, payload = line\<rparr> # timings parseFloat st' lines)"

text \<open>The sleeps of a run of \<^verbatim>\<open>captureLoop\<close>, line by line.\<close>

definition waits_of :: "(forwarded list \<times> CaptureManager \<times> filesys) run \<Rightarrow> int option list" where
  "waits_of r = (case r of Panics \<Rightarrow> [] | Returns (out, cm, fs) \<Rightarrow> map slept out)"

subsection \<open>The batch ingester\<close>

text \<open>
  The event store is outside the repository. For one transaction, a script says which of
  its calls fail: \<^verbatim>\<open>Begin\<close>, \<^verbatim>\<open>Prepare\<close>, the \<^verbatim>\<open>Exec\<close> of the record at each index of
  the batch, and \<^verbatim>\<open>Commit\<close>. \<open>clock\<close> is the time read when the rate is computed.
\<close>

record tx_script =
  begin_err :: "string option"
  prepare_err :: "string option"
  exec_fails :: "nat \<Rightarrow> bool"
  commit_err :: "string option"

record ingest_env =
  script :: tx_script
  clock :: gotime

text \<open>The calls the ingester makes on the buffer, the store and the timer.\<close>

datatype call =
    ReadBatchCall int | RemoveBatchCall int | SleepCall int
  | BeginCall | PrepareCall | ExecCall bytes | StmtCloseCall | CommitCall | RollbackCall

text \<open>
  The state of the loop: the manager, the file system, \<^verbatim>\<open>captureDB\<close> (nil, or the
  payloads of the rows stored), and the two local variables of the rate.
\<close>

record ingest_state =
  i_cm :: CaptureManager
  i_fs :: filesys
  i_db :: "bytes list option"
  i_lastIngested :: int
  i_lastTime :: gotime

datatype 'a step = Continue 'a | Return 'a

definition set_LastError :: "ingest_state \<Rightarrow> string \<Rightarrow> ingest_state" where
  "set_LastError st msg =
     st\<lparr>i_cm := (i_cm st)\<lparr>cm_lastStatus := (cm_lastStatus (i_cm st))\<lparr>LastError := msg\<rparr>\<rparr>\<rparr>"

text \<open>
  The \<^verbatim>\<open>Exec\<close> loop over the batch, from index \<open>i\<close>: the records inserted, the records
  that failed, and the rows the transaction holds.
\<close>

fun exec_batch :: "(nat \<Rightarrow> bool) \<Rightarrow> nat \<Rightarrow> bytes list \<Rightarrow> int \<times> int \<times> bytes list" where
  "exec_batch fails i [] = (0, 0, [])"
| "exec_batch fails i (line # lines) =
     (case exec_batch fails (Suc i) lines of
        (ingested, errs, rows) \<Rightarrow>
          if fails i then (ingested, errs + 1, rows) else (ingested + 1, errs, line # rows))"

text \<open>The status update that ends a committed iteration.\<close>

definition update_status :: "ingest_env \<Rightarrow> ingest_state \<Rightarrow> int \<Rightarrow> int \<Rightarrow> ingest_state" where
  "update_status env st ingested errs =
     (let s0 = cm_lastStatus (i_cm st);
          s1 = s0\<lparr>Ingested := Ingested s0 + ingested, ErrorCount := ErrorCount s0 + errs\<rparr>;
          elapsed = real_of_int (clock env - i_lastTime st) / 1000000000;
          s2 = (if elapsed > 0
                then s1\<lparr>IngestRateEPS := real_of_int (Ingested s1 - i_lastIngested st) / elapsed\<rparr>
                else s1);
          s3 = (if errs > 0 then s2\<lparr>LastError := fmt_d errs @ '' ingestion errors''\<rparr> else s2)
      in st\<lparr>i_cm := (i_cm st)\<lparr>cm_lastStatus := s3\<rparr>,
            i_lastIngested := (if elapsed > 0 then Ingested s1 else i_lastIngested st),
            i_lastTime := (if elapsed > 0 then clock env else i_lastTime st)\<rparr>)"

text \<open>The part of an iteration of \<^verbatim>\<open>ingestLoop\<close> that follows a non-empty batch.\<close>

definition ingest_batch ::
  "ingest_env \<Rightarrow> ingest_state \<Rightarrow> bytes list \<Rightarrow> (ingest_state \<times> call list) run" where
  "ingest_batch env st batch =
     (case i_db st of
        None \<Rightarrow> Returns (set_LastError st ''captureDB not set'', [])
      | Some rows \<Rightarrow>
          (case begin_err (script env) of
             Some m \<Rightarrow> Returns (set_LastError st m, [BeginCall])
           | None \<Rightarrow>
               (case prepare_err (script env) of
                  Some m \<Rightarrow> Returns (set_LastError st m, [BeginCall, PrepareCall, RollbackCall])
                | None \<Rightarrow>
                    (case exec_batch (exec_fails (script env)) 0 batch of
                       (ingested, errs, new_rows) \<Rightarrow>
                         (let calls = [BeginCall, PrepareCall] @ map ExecCall batch
                                        @ [StmtCloseCall, CommitCall]
                          in case commit_err (script env) of
                               Some m \<Rightarrow> Returns (set_LastError st m, calls)
                             | None \<Rightarrow>
                                 (let st1 = st\<lparr>i_db := Some (rows @ new_rows)\<rparr> in
                                  case cm_bufferImpl (i_cm st1) of
                                    None \<Rightarrow> Returns (update_status env st1 ingested errs, calls)
                                  | Some cb \<Rightarrow>
                                      (case cb_RemoveBatch (i_fs st1) cb (int (length batch)) of
                                         Panics \<Rightarrow> Panics
                                       | Returns (e, fs') \<Rightarrow>
                                           Returns
                                             (update_status env (st1\<lparr>i_fs := fs'\<rparr>) ingested errs,
                                              calls @ [RemoveBatchCall (int (length batch))]))))))))"

definition after_read ::
  "ingest_env \<Rightarrow> ingest_state \<Rightarrow> bytes list \<Rightarrow> call list
     \<Rightarrow> (ingest_state step \<times> call list) run" where
  "after_read env st batch calls =
     (if length batch = 0 then Returns (Continue st, calls @ [SleepCall 10000000])
      else (case ingest_batch env st batch of
              Panics \<Rightarrow> Panics
            | Returns (st', cs) \<Rightarrow> Returns (Continue st', calls @ cs)))"

text \<open>One iteration of the \<^verbatim>\<open>for\<close> loop of \<^verbatim>\<open>ingestLoop\<close>, with the calls it made.\<close>

definition ingestIter ::
  "ingest_env \<Rightarrow> ingest_state \<Rightarrow> (ingest_state step \<times> call list) run" where
  "ingestIter env st =
     (if cm_stopped (i_cm st)
      then Returns (Return (st\<lparr>i_cm := (i_cm st)\<lparr>cm_ingesting := False\<rparr>\<rparr>), [])
      else
        (case cm_bufferImpl (i_cm st) of
           Some cb \<Rightarrow>
             (case cb_ReadBatch (i_fs st) cb 256 of
                Panics \<Rightarrow> Panics
              | Returns (Inl e) \<Rightarrow>
                  Returns (Continue (set_LastError st (err_Error e)),
                           [ReadBatchCall 256, SleepCall 10000000])
              | Returns (Inr batch) \<Rightarrow> after_read env st batch [ReadBatchCall 256])
         | None \<Rightarrow>
             after_read env (st\<lparr>i_cm := (i_cm st)\<lparr>cm_buffer := []\<rparr>\<rparr>) (cm_buffer (i_cm st)) []))"

text \<open>
  \<^verbatim>\<open>ingestLoop\<close> runs until it sees the stop flag; the model runs it for as many
  iterations as it is given environments.
\<close>

fun ingestLoop ::
  "ingest_env list \<Rightarrow> ingest_state \<Rightarrow> (ingest_state step \<times> call list) run" where
  "ingestLoop [] st = Returns (Continue st, [])"
| "ingestLoop (env # envs) st =
     (case ingestIter env st of
        Panics \<Rightarrow> Panics
      | Returns (Return st', cs) \<Rightarrow> Returns (Return st', cs)
      | Returns (Continue st', cs) \<Rightarrow>
          (case ingestLoop envs st' of
             Panics \<Rightarrow> Panics
           | Returns (r, cs') \<Rightarrow> Returns (r, cs @ cs')))"

text \<open>The state an iteration ends in, and the \<^verbatim>\<open>Ingested\<close> counter of a state.\<close>

fun step_state :: "'a step \<Rightarrow> 'a" where
  "step_state (Continue s) = s"
| "step_state (Return s) = s"

definition ingested_of :: "ingest_state \<Rightarrow> int" where
  "ingested_of st = Ingested (cm_lastStatus (i_cm st))"

text \<open>The transaction of an iteration fails when \<^verbatim>\<open>Begin\<close>, \<^verbatim>\<open>Prepare\<close> or \<^verbatim>\<open>Commit\<close> does.\<close>

definition tx_fails :: "ingest_env \<Rightarrow> bool" where
  "tx_fails env \<longleftrightarrow>
     begin_err (script env) \<noteq> None \<or> prepare_err (script env) \<noteq> None
       \<or> commit_err (script env) \<noteq> None"

text \<open>
  The counter across one step: it never decreases, it stays when the transaction fails,
  and it moves only in a step whose transaction succeeded and committed.
\<close>

definition no_ghost_ack :: "ingest_env \<Rightarrow> ingest_state \<Rightarrow> ingest_state \<Rightarrow> call list \<Rightarrow> bool" where
  "no_ghost_ack env st st' cs \<longleftrightarrow>
     ingested_of st \<le> ingested_of st'
     \<and> (tx_fails env \<longrightarrow> ingested_of st' = ingested_of st)
     \<and> (ingested_of st' \<noteq> ingested_of st \<longrightarrow> \<not> tx_fails env \<and> CommitCall \<in> set cs)"

subsection \<open>Sample data\<close>

text \<open>A file system that holds the buffer file \<^verbatim>\<open>capture_buffer.dat\<close> with the given bytes.\<close>

definition demo_fs :: "bytes \<Rightarrow> filesys" where
  "demo_fs bs =
     \<lparr>names = Map.empty(''capture_buffer.dat'' \<mapsto> 0), contents = (\<lambda>i. [])(0 := bs),
      locked = (\<lambda>i. False), next_ino = 1\<rparr>"

text \<open>A FIFO buffer on that file, and a running manager that owns it.\<close>

definition demo_buffer :: FIFOBuffer where
  "demo_buffer = \<lparr>path = ''capture_buffer.dat'', file_handle = new_handle ''capture_buffer.dat'' 0 True\<rparr>"

definition demo_manager :: CaptureManager where
  "demo_manager =
     captureManager\<lparr>cm_bufferImpl := Some (FIFO (Some demo_buffer)), cm_stopCh := Some False,
                    cm_ingesting := True, cm_bufferFilePath := ''capture_buffer.dat''\<rparr>"

text \<open>
  The \<^verbatim>\<open>float64\<close> values nearest to 0.1, 0.3 and 10.1, which are not \<^verbatim>\<open>float64\<close> values
  themselves (the bit patterns \<^verbatim>\<open>0x3FB999999999999A\<close>, \<^verbatim>\<open>0x3FD3333333333333\<close> and
  \<^verbatim>\<open>0x4024333333333333\<close>: a 53-bit significand over a power of two).
\<close>

definition f64_0_1 :: real where
  "f64_0_1 = 3602879701896397 / 2 ^ 55"

definition f64_0_3 :: real where
  "f64_0_3 = 5404319552844595 / 2 ^ 54"

definition f64_10_1 :: real where
  "f64_10_1 = 5685794529555251 / 2 ^ 49"

text \<open>
  The bytes of a string, and a stand-in for \<^verbatim>\<open>strconv.ParseFloat\<close> that knows the
  numerals of the examples and gives each the \<^verbatim>\<open>float64\<close> nearest to it.
\<close>

definition bytes_of :: "string \<Rightarrow> bytes" where
  "bytes_of s = map (\<lambda>c. of_nat (of_char c)) s"

definition demo_parseFloat :: "bytes \<Rightarrow> f64 option" where
  "demo_parseFloat s =
     (if s = bytes_of ''0.0'' then Some (Fin 0)
      else if s = bytes_of ''0.1'' then Some (Fin f64_0_1)
      else if s = bytes_of ''0.3'' then Some (Fin f64_0_3)
      else if s = bytes_of ''10.1'' then Some (Fin f64_10_1)
      else if s = bytes_of ''100.0'' then Some (Fin 100)
      else None)"

text \<open>
  An ingester's state with one record, \<^verbatim>\<open>A\<close>, in the buffer file and an empty store, and
  an environment whose transaction calls succeed up to \<^verbatim>\<open>Commit\<close>, which returns the
  given error, if any.
\<close>

definition demo_ingest :: ingest_state where
  "demo_ingest =
     \<lparr>i_cm = demo_manager, i_fs = demo_fs [0, 0, 0, 1, 65], i_db = Some [],
      i_lastIngested = 0, i_lastTime = 0\<rparr>"

definition demo_env :: "string option \<Rightarrow> ingest_env" where
  "demo_env commit =
     \<lparr>script = \<lparr>begin_err = None, prepare_err = None, exec_fails = (\<lambda>i. False),
                 commit_err = commit\<rparr>,
      clock = 1000000000\<rparr>"

text \<open>
  Stand-ins for the two renderings the status handler takes as parameters: they render the
  zero time and the rate 0, the only values of the examples.
\<close>

definition demo_rfc3339 :: "gotime \<Rightarrow> string" where
  "demo_rfc3339 t = ''0001-01-01T00:00:00Z''"

definition demo_f2 :: "real \<Rightarrow> string" where
  "demo_f2 x = ''0.00''"

text \<open>
  A file system where the source log can be opened and the process has no permission on
  the buffer file; the same with the permission granted; and the manager as a start on the
  first leaves it.
\<close>

definition locked_fs :: filesys where
  "locked_fs =
     \<lparr>names = Map.empty(''capture_buffer.dat'' \<mapsto> 0, ''capture.log'' \<mapsto> 1),
      contents = (\<lambda>i. []), locked = (\<lambda>i. i = 0), next_ino = 2\<rparr>"

definition unlocked_fs :: filesys where
  "unlocked_fs = locked_fs\<lparr>locked := (\<lambda>i. False)\<rparr>"

definition after_failed_start :: CaptureManager where
  "after_failed_start = fst (snd (StartSimulatedCapture locked_fs captureManager ''capture.log'' 0))"

section \<open>Properties\<close>

subsection \<open>The frame codec and the buffer file\<close>

lemma be32_put_be32: "be32 (put_be32 l) = l"
proof -
  have "push_bit 24 (ucast (ucast (drop_bit 24 l) :: byte)) OR push_bit 16 (ucast (ucast (drop_bit 16 l) :: byte))
       OR push_bit 8 (ucast (ucast (drop_bit 8 l) :: byte)) OR ucast (ucast l :: byte) = l" (is "?w = _")
  proof (rule bit_word_eqI)
    fix n assume n: "n < LENGTH(32)"
    consider "n < 8" | "8 \<le> n" "n < 16" | "16 \<le> n" "n < 24" | "24 \<le> n" by linarith
    then show "bit ?w n = bit l n"
      using n by cases (auto simp: bit_simps)
  qed
  then show ?thesis by (simp add: be32_def put_be32_def)
qed

lemma length_put_be32 [simp]: "length (put_be32 l) = 4"
  by (simp add: put_be32_def)

lemma filled_exact [simp]: "length bs = n \<Longrightarrow> filled n bs = bs"
  by (simp add: filled_def)

lemma encode_frames_Nil [simp]: "encode_frames [] = []"
  by (simp add: encode_frames_def)

lemma encode_frames_Cons: "encode_frames (r # rs) = put_be32 (of_nat (length r)) @ r @ encode_frames rs"
  by (simp add: encode_frames_def frame_def)

lemma encode_frames_append: "encode_frames (xs @ ys) = encode_frames xs @ encode_frames ys"
  by (simp add: encode_frames_def)

lemma unat_len32: "length r < 2 ^ 32 \<Longrightarrow> unat (of_nat (length r) :: u32) = length r"
  by (simp add: unat_of_nat take_bit_nat_eq_self)

lemma f_Read_header:
  assumes "\<not> h_closed f" and "drop (h_pos f) (contents fs (h_ino f)) = put_be32 l @ rest"
  shows "f_Read fs f 4 = Inr (put_be32 l, f\<lparr>h_pos := h_pos f + 4\<rparr>)"
  using assms by (simp add: f_Read_def maxRW_def Let_def put_be32_def)

lemma f_Read_EOF:
  assumes "\<not> h_closed f" and "drop (h_pos f) (contents fs (h_ino f)) = []" and "0 < n"
  shows "f_Read fs f n = Inl EOF"
  using assms by (simp add: f_Read_def)

lemma skipFrames_frames:
  assumes "\<not> h_closed f"
    and "drop (h_pos f) (contents fs (h_ino f)) = encode_frames rs"
    and "\<forall>r\<in>set rs. length r < 2 ^ 32"
  shows "skipFrames fs n f off =
           (off + length (encode_frames (take n rs)),
            f\<lparr>h_pos := h_pos f + length (encode_frames (take n rs))\<rparr>)"
  using assms
proof (induction n arbitrary: f off rs)
  case 0
  then show ?case by simp
next
  case (Suc n)
  show ?case
  proof (cases rs)
    case Nil
    with Suc.prems show ?thesis by (simp add: f_Read_EOF)
  next
    case (Cons r rs')
    let ?f2 = "f\<lparr>h_pos := h_pos f + 4 + length r\<rparr>"
    have len: "unat (of_nat (length r) :: u32) = length r"
      using Suc.prems(3) Cons by (simp add: unat_len32)
    have rd: "f_Read fs f 4 = Inr (put_be32 (of_nat (length r)), f\<lparr>h_pos := h_pos f + 4\<rparr>)"
      using Suc.prems(1,2) Cons by (intro f_Read_header) (simp_all add: encode_frames_Cons)
    have "drop (h_pos f + 4 + length r) (contents fs (h_ino f))
            = drop (4 + length r) (drop (h_pos f) (contents fs (h_ino f)))"
      by (simp add: add.commute add.left_commute)
    also have "\<dots> = encode_frames rs'"
      using Suc.prems(2) Cons by (simp add: encode_frames_Cons)
    finally have dr: "drop (h_pos ?f2) (contents fs (h_ino ?f2)) = encode_frames rs'"
      by simp
    have ih: "skipFrames fs n ?f2 (off + 4 + length r) =
           (off + 4 + length r + length (encode_frames (take n rs')),
            ?f2\<lparr>h_pos := h_pos ?f2 + length (encode_frames (take n rs'))\<rparr>)"
      using Suc.prems(1,3) Cons by (intro Suc.IH[OF _ dr]) simp_all
    show ?thesis
      using Suc.prems(1) Cons rd len ih
      by (simp add: be32_put_be32 f_Seek_def encode_frames_Cons add.assoc)
  qed
qed


lemma length_le_encode_take:
  "length (encode_frames (take n rs)) \<le> length (encode_frames rs)"
proof -
  have "encode_frames rs = encode_frames (take n rs) @ encode_frames (drop n rs)"
    by (metis append_take_drop_id encode_frames_append)
  then show ?thesis by simp
qed

lemma encode_frames_split:
  "encode_frames rs = encode_frames (take n rs) @ encode_frames (drop n rs)"
  by (metis append_take_drop_id encode_frames_append)

lemma length_encode_take_less:
  assumes "n < length rs"
  shows "length (encode_frames (take n rs)) < length (encode_frames rs)"
proof -
  from assms obtain r rs' where d: "drop n rs = r # rs'"
    by (cases "drop n rs") auto
  have "length (encode_frames rs) = length (encode_frames (take n rs)) + length (encode_frames (drop n rs))"
    using encode_frames_split[of rs n] by (metis length_append)
  then show ?thesis by (simp add: d encode_frames_Cons)
qed

lemma os_Open_ok: "names fs p = Some i \<Longrightarrow> \<not> locked fs i \<Longrightarrow> os_Open fs p = Inr (new_handle p i False)"
  by (simp add: os_Open_def)

lemma removeBatch_truncates:
  assumes "names fs p = Some i" "\<not> locked fs i" "contents fs i = encode_frames rs"
    and "\<forall>r\<in>set rs. length r < 2 ^ 32" and "length rs \<le> nat n"
  shows "removeBatchFromDisk fs p n = (None, fs\<lparr>contents := (contents fs)(i := [])\<rparr>)"
proof -
  have sk: "skipFrames fs (nat n) (new_handle p i False) 0 =
      (0 + length (encode_frames (take (nat n) rs)),
       (new_handle p i False)\<lparr>h_pos := h_pos (new_handle p i False) + length (encode_frames (take (nat n) rs))\<rparr>)"
    using assms(3,4) by (intro skipFrames_frames) (simp_all add: new_handle_def)
  show ?thesis
    using assms sk
    by (simp add: removeBatchFromDisk_def os_Open_ok os_Stat_Size_def os_Truncate_def)
qed

lemma removeBatch_rewrites:
  assumes "names fs p = Some i" "\<not> locked fs i" "contents fs i = encode_frames rs"
    and "\<forall>r\<in>set rs. length r < 2 ^ 32" and "nat n < length rs"
    and "\<forall>j. names fs (p @ ''.tmp'') = Some j \<longrightarrow> \<not> locked fs j"
  shows "\<exists>fs'. removeBatchFromDisk fs p n = (None, fs')
            \<and> file_at fs' p = Some (encode_frames (drop (nat n) rs))
            \<and> names fs' (p @ ''.tmp'') = None"
proof -
  let ?k = "length (encode_frames (take (nat n) rs))"
  let ?h = "new_handle p i False"
  have sk: "skipFrames fs (nat n) ?h 0 = (0 + ?k, ?h\<lparr>h_pos := h_pos ?h + ?k\<rparr>)"
    using assms(3,4) by (intro skipFrames_frames) (simp_all add: new_handle_def)
  have lt: "?k < length (encode_frames rs)"
    using assms(5) by (rule length_encode_take_less)
  have rest: "drop ?k (encode_frames rs) = encode_frames (drop (nat n) rs)"
    using encode_frames_split[of rs "nat n"] by (metis append_eq_conv_conj)
  have ne: "p @ ''.tmp'' \<noteq> p" by simp
  show ?thesis
  proof (cases "names fs (p @ ''.tmp'')")
    case None
    then show ?thesis
      using assms(1-3) sk lt rest ne
      by (simp add: removeBatchFromDisk_def os_Open_ok os_Stat_Size_def f_Seek_def new_handle_def
          io_ReadAll_def os_Create_def create_inode_def f_Write_def os_Rename_def file_at_def)
  next
    case (Some j)
    with assms(6) have "\<not> locked fs j" by simp
    then show ?thesis
      using Some assms(1-3) sk lt rest ne
      by (simp add: removeBatchFromDisk_def os_Open_ok os_Stat_Size_def f_Seek_def new_handle_def
          io_ReadAll_def os_Create_def create_inode_def f_Write_def os_Rename_def file_at_def)
  qed
qed


lemma f_Read_payload:
  assumes "\<not> h_closed f" and "drop (h_pos f) (contents fs (h_ino f)) = r @ rest"
    and "length r \<le> maxRW"
  shows "f_Read fs f (length r) = Inr (r, f\<lparr>h_pos := h_pos f + length r\<rparr>)"
  using assms by (cases "r = []") (simp_all add: f_Read_def Let_def)

lemma readFrames_frames:
  assumes "\<not> h_closed f"
    and "drop (h_pos f) (contents fs (h_ino f)) = encode_frames rs"
    and "\<forall>r\<in>set rs. length r \<le> maxRW"
  shows "readFrames fs n f batch = batch @ take n rs"
  using assms
proof (induction n arbitrary: f batch rs)
  case 0
  then show ?case by simp
next
  case (Suc n)
  show ?case
  proof (cases rs)
    case Nil
    with Suc.prems show ?thesis by (simp add: f_Read_EOF)
  next
    case (Cons r rs')
    let ?f1 = "f\<lparr>h_pos := h_pos f + 4\<rparr>"
    let ?f2 = "?f1\<lparr>h_pos := h_pos ?f1 + length r\<rparr>"
    have small: "length r \<le> maxRW" using Suc.prems(3) Cons by simp
    then have len: "unat (of_nat (length r) :: u32) = length r"
      by (intro unat_len32) (simp add: maxRW_def)
    have rd: "f_Read fs f 4 = Inr (put_be32 (of_nat (length r)), ?f1)"
      using Suc.prems(1,2) Cons by (intro f_Read_header) (simp_all add: encode_frames_Cons)
    have "drop (h_pos ?f1) (contents fs (h_ino ?f1))
            = drop 4 (drop (h_pos f) (contents fs (h_ino f)))"
      by (simp add: add.commute)
    also have "\<dots> = r @ encode_frames rs'"
      using Suc.prems(2) Cons by (simp add: encode_frames_Cons)
    finally have d1: "drop (h_pos ?f1) (contents fs (h_ino ?f1)) = r @ encode_frames rs'" .
    have rd2: "f_Read fs ?f1 (length r) = Inr (r, ?f2)"
      using Suc.prems(1) small by (intro f_Read_payload[OF _ d1]) simp_all
    have "drop (h_pos ?f2) (contents fs (h_ino ?f2))
            = drop (length r) (drop (h_pos ?f1) (contents fs (h_ino ?f1)))"
      by (simp add: add.commute)
    also have "\<dots> = encode_frames rs'"
      by (simp only: d1) simp
    finally have d2: "drop (h_pos ?f2) (contents fs (h_ino ?f2)) = encode_frames rs'" .
    have ih: "readFrames fs n ?f2 (batch @ [r]) = (batch @ [r]) @ take n rs'"
      using Suc.prems(1,3) Cons by (intro Suc.IH[OF _ d2]) simp_all
    show ?thesis
      using Cons rd rd2 len ih by (simp add: be32_put_be32)
  qed
qed

lemma writeLengthPrefixed_appends:
  assumes "\<not> h_closed f" and "h_append f"
  shows "writeLengthPrefixed fs f data =
           (None,
            f\<lparr>h_pos := length (contents fs (h_ino f)) + 4 + length data\<rparr>,
            fs\<lparr>contents := (contents fs)
                  (h_ino f := contents fs (h_ino f) @ put_be32 (of_nat (length data)) @ data)\<rparr>)"
  using assms by (simp add: writeLengthPrefixed_def f_Write_def Let_def)

lemma FIFO_Append_appends:
  assumes "\<not> h_closed (file_handle b)" and "h_append (file_handle b)"
  shows "\<exists>b'. FIFO_Append fs b data =
           (None, b',
            fs\<lparr>contents := (contents fs)
                  (h_ino (file_handle b) := contents fs (h_ino (file_handle b)) @ frame data)\<rparr>)
          \<and> path b' = path b \<and> h_ino (file_handle b') = h_ino (file_handle b)
          \<and> \<not> h_closed (file_handle b') \<and> h_append (file_handle b')"
  using assms by (simp add: FIFO_Append_def writeLengthPrefixed_appends frame_def)

lemma append_all_appends:
  assumes "\<not> h_closed (file_handle b)" and "h_append (file_handle b)"
  shows "\<exists>b'. append_all fs b rs =
           (None, b',
            fs\<lparr>contents := (contents fs)
                  (h_ino (file_handle b) := contents fs (h_ino (file_handle b)) @ encode_frames rs)\<rparr>)
          \<and> path b' = path b \<and> h_ino (file_handle b') = h_ino (file_handle b)"
  using assms
proof (induction rs arbitrary: fs b)
  case Nil
  then show ?case by simp
next
  case (Cons r rs)
  let ?i = "h_ino (file_handle b)"
  let ?fs1 = "fs\<lparr>contents := (contents fs)(?i := contents fs ?i @ frame r)\<rparr>"
  from FIFO_Append_appends[OF Cons.prems, of fs r]
  obtain b1 where b1: "FIFO_Append fs b r = (None, b1, ?fs1)" "path b1 = path b"
      "h_ino (file_handle b1) = ?i" "\<not> h_closed (file_handle b1)" "h_append (file_handle b1)"
    by blast
  have eq: "?fs1\<lparr>contents := (contents ?fs1)(?i := contents ?fs1 ?i @ encode_frames rs)\<rparr>
      = fs\<lparr>contents := (contents fs)(?i := contents fs ?i @ encode_frames (r # rs))\<rparr>"
    by (simp add: encode_frames_Cons frame_def)
  from Cons.IH[OF b1(4,5), of ?fs1]
  obtain b' where b': "append_all ?fs1 b1 rs =
       (None, b', fs\<lparr>contents := (contents fs)(?i := contents fs ?i @ encode_frames (r # rs))\<rparr>)"
       "path b' = path b1" "h_ino (file_handle b') = h_ino (file_handle b1)"
    unfolding b1(3) eq by blast
  have "append_all fs b (r # rs) = append_all ?fs1 b1 rs"
    by (simp add: b1(1))
  from this b'(1) have "append_all fs b (r # rs) =
       (None, b', fs\<lparr>contents := (contents fs)(?i := contents fs ?i @ encode_frames (r # rs))\<rparr>)"
    by (rule trans)
  moreover have "path b' = path b" "h_ino (file_handle b') = ?i"
    using b1(2,3) b'(2,3) by simp_all
  ultimately show ?case by blast
qed

lemma readBatch_frames:
  assumes "names fs p = Some i" "\<not> locked fs i" "contents fs i = encode_frames rs"
    and "\<forall>r\<in>set rs. length r \<le> maxRW"
  shows "readBatchFromDisk fs p mx = Inr (take (nat mx) rs)"
proof -
  have "readFrames fs (nat mx) (new_handle p i False) [] = [] @ take (nat mx) rs"
    using assms(3,4) by (intro readFrames_frames) (simp_all add: new_handle_def)
  then show ?thesis
    using assms(1,2) by (simp add: readBatchFromDisk_def os_Open_ok)
qed

lemma NewFIFOBuffer_fresh:
  "names fs p = None \<Longrightarrow>
     NewFIFOBuffer fs p =
       Inr (\<lparr>path = p, file_handle = new_handle p (next_ino fs) True\<rparr>, create_inode fs p)"
  by (simp add: NewFIFOBuffer_def os_OpenFile_append_def)

lemma NewFIFOBuffer_existing:
  "names fs p = Some i \<Longrightarrow> \<not> locked fs i \<Longrightarrow>
     NewFIFOBuffer fs p = Inr (\<lparr>path = p, file_handle = new_handle p i True\<rparr>, fs)"
  by (simp add: NewFIFOBuffer_def os_OpenFile_append_def)

lemma round_trip_from:
  assumes fs1: "names fs1 p = Some i" "\<not> locked fs1 i" "contents fs1 i = []"
    and small: "\<forall>r\<in>set rs. length r \<le> maxRW"
    and mx: "int (length rs) \<le> mx"
  shows "\<exists>b' fs'. append_all fs1 \<lparr>path = p, file_handle = new_handle p i True\<rparr> rs = (None, b', fs')
            \<and> FIFO_ReadBatch fs' b' mx = Inr rs"
proof -
  let ?b = "\<lparr>path = p, file_handle = new_handle p i True\<rparr>"
  let ?fs' = "fs1\<lparr>contents := (contents fs1)(i := encode_frames rs)\<rparr>"
  from append_all_appends[of ?b fs1 rs] fs1
  obtain b' where app: "append_all fs1 ?b rs = (None, b', ?fs')" "path b' = p"
    by (auto simp: new_handle_def)
  have "readBatchFromDisk ?fs' p mx = Inr (take (nat mx) rs)"
    using fs1 small by (intro readBatch_frames[where i = i]) simp_all
  moreover have "take (nat mx) rs = rs" using mx by simp
  ultimately show ?thesis
    using app by (simp add: FIFO_ReadBatch_def)
qed

text \<open>
  Claim C5, amended. Records of at most \<open>2 ^ 30\<close> bytes each (\<open>maxRW\<close>, what a single
  payload read returns whole), appended in order through a FIFO buffer opened on an empty
  (or not yet existing) file, are read back by \<^verbatim>\<open>ReadBatch\<close>, in order and byte for byte,
  when the batch size covers them.
\<close>

theorem frame_round_trip:
  assumes "names fs p = None \<or> (\<exists>i. names fs p = Some i \<and> \<not> locked fs i \<and> contents fs i = [])"
    and "\<forall>r\<in>set rs. length r \<le> maxRW"
    and "int (length rs) \<le> mx"
  shows "\<exists>b fs1 b' fs'. NewFIFOBuffer fs p = Inr (b, fs1)
            \<and> append_all fs1 b rs = (None, b', fs')
            \<and> FIFO_ReadBatch fs' b' mx = Inr rs"
proof (cases "names fs p")
  case None
  have "\<exists>b' fs'. append_all (create_inode fs p) \<lparr>path = p, file_handle = new_handle p (next_ino fs) True\<rparr> rs
            = (None, b', fs') \<and> FIFO_ReadBatch fs' b' mx = Inr rs"
    using assms(2,3) by (intro round_trip_from) (simp_all add: create_inode_def)
  then show ?thesis
    using NewFIFOBuffer_fresh[OF None] by auto
next
  case (Some i)
  with assms(1) have i: "\<not> locked fs i" "contents fs i = []" by auto
  have "\<exists>b' fs'. append_all fs \<lparr>path = p, file_handle = new_handle p i True\<rparr> rs
            = (None, b', fs') \<and> FIFO_ReadBatch fs' b' mx = Inr rs"
    using Some i assms(2,3) by (intro round_trip_from) simp_all
  then show ?thesis
    using NewFIFOBuffer_existing[OF Some i(1)] by auto
qed


text \<open>
  Claim C4. A buffer file that is a sequence of well-formed frames, and \<open>k\<close> at most the
  number of frames: \<^verbatim>\<open>removeBatchFromDisk\<close> succeeds and the file at the path then holds
  exactly the frames after the first \<open>k\<close>; when \<open>k\<close> is the number of frames the file is
  truncated in place to length zero. The file must be one the process can open, and the
  sibling \<^verbatim>\<open>.tmp\<close> path one it can create.
\<close>

theorem removeBatch_head_only:
  assumes "names fs p = Some i" and "\<not> locked fs i"
    and "contents fs i = encode_frames rs"
    and "\<forall>r\<in>set rs. length r < 2 ^ 32"
    and "0 \<le> k" and "k \<le> int (length rs)"
    and "\<forall>j. names fs (p @ ''.tmp'') = Some j \<longrightarrow> \<not> locked fs j"
  shows "\<exists>fs'. removeBatchFromDisk fs p k = (None, fs')
           \<and> file_at fs' p = Some (encode_frames (drop (nat k) rs))
           \<and> (k = int (length rs) \<longrightarrow> fs' = fs\<lparr>contents := (contents fs)(i := [])\<rparr>)"
proof (cases "nat k < length rs")
  case True
  from removeBatch_rewrites[OF assms(1-4) True assms(7)] True assms(5)
  show ?thesis by auto
next
  case False
  then have full: "length rs \<le> nat k" by simp
  from removeBatch_truncates[OF assms(1-4) full] full assms(1)
  show ?thesis by (simp add: file_at_def)
qed

theorem removeBatch_head_only_witness:
  "names (demo_fs [0,0,0,1,65, 0,0,0,2,66,67]) ''capture_buffer.dat'' = Some 0
   \<and> \<not> locked (demo_fs [0,0,0,1,65, 0,0,0,2,66,67]) 0
   \<and> contents (demo_fs [0,0,0,1,65, 0,0,0,2,66,67]) 0 = encode_frames [[65], [66,67]]
   \<and> length [65::byte] < 2 ^ 32 \<and> length [66,67::byte] < 2 ^ 32
   \<and> (0::int) \<le> 1 \<and> (1::int) \<le> int (length [[65], [66,67::byte]])
   \<and> names (demo_fs [0,0,0,1,65, 0,0,0,2,66,67]) (''capture_buffer.dat'' @ ''.tmp'') = None
   \<and> fst (removeBatchFromDisk (demo_fs [0,0,0,1,65, 0,0,0,2,66,67]) ''capture_buffer.dat'' 1) = None
   \<and> file_at (snd (removeBatchFromDisk (demo_fs [0,0,0,1,65, 0,0,0,2,66,67]) ''capture_buffer.dat'' 1))
        ''capture_buffer.dat'' = Some [0,0,0,2,66,67]"
proof -
  let ?fs = "demo_fs [0,0,0,1,65, 0,0,0,2,66,67]"
  have h1: "names ?fs ''capture_buffer.dat'' = Some 0" by (simp add: demo_fs_def)
  have h2: "\<not> locked ?fs 0" by (simp add: demo_fs_def)
  have h3: "contents ?fs 0 = encode_frames [[65], [66,67]]"
    by (simp add: demo_fs_def encode_frames_def frame_def put_be32_def)
  have h4: "\<forall>r\<in>set [[65], [66,67::byte]]. length r < 2 ^ 32" by simp
  have h5: "(0::int) \<le> 1" "(1::int) \<le> int (length [[65], [66,67::byte]])" by simp_all
  have h7: "\<forall>j. names ?fs (''capture_buffer.dat'' @ ''.tmp'') = Some j \<longrightarrow> \<not> locked ?fs j"
    by (simp add: demo_fs_def)
  from removeBatch_head_only[OF h1 h2 h3 h4 h5 h7]
  have "fst (removeBatchFromDisk ?fs ''capture_buffer.dat'' 1) = None
      \<and> file_at (snd (removeBatchFromDisk ?fs ''capture_buffer.dat'' 1)) ''capture_buffer.dat''
          = Some [0,0,0,2,66,67]"
    by (auto simp: encode_frames_def frame_def put_be32_def)
  with h1 h2 h3 h5 show ?thesis by (simp add: demo_fs_def)
qed

text \<open>
  Claim C10. A request to remove more frames than the file holds does not fail: the walk
  over the frames stops at the end of the file, and the file is truncated to length zero.
\<close>

theorem removeBatch_beyond_count:
  assumes "names fs p = Some i" and "\<not> locked fs i"
    and "contents fs i = encode_frames rs"
    and "\<forall>r\<in>set rs. length r < 2 ^ 32"
    and "int (length rs) < n"
  shows "removeBatchFromDisk fs p n = (None, fs\<lparr>contents := (contents fs)(i := [])\<rparr>)
         \<and> file_at (snd (removeBatchFromDisk fs p n)) p = Some []"
proof -
  from assms(5) have "length rs \<le> nat n" by simp
  from removeBatch_truncates[OF assms(1-4) this] assms(1)
  show ?thesis by (simp add: file_at_def)
qed

theorem removeBatch_beyond_count_witness:
  "names (demo_fs [0,0,0,1,65]) ''capture_buffer.dat'' = Some 0
   \<and> \<not> locked (demo_fs [0,0,0,1,65]) 0
   \<and> contents (demo_fs [0,0,0,1,65]) 0 = encode_frames [[65]]
   \<and> length [65::byte] < 2 ^ 32
   \<and> int (length [[65::byte]]) < 256
   \<and> fst (removeBatchFromDisk (demo_fs [0,0,0,1,65]) ''capture_buffer.dat'' 256) = None
   \<and> file_at (snd (removeBatchFromDisk (demo_fs [0,0,0,1,65]) ''capture_buffer.dat'' 256))
        ''capture_buffer.dat'' = Some []"
proof -
  let ?fs = "demo_fs [0,0,0,1,65]"
  have h1: "names ?fs ''capture_buffer.dat'' = Some 0" by (simp add: demo_fs_def)
  have h2: "\<not> locked ?fs 0" by (simp add: demo_fs_def)
  have h3: "contents ?fs 0 = encode_frames [[65]]"
    by (simp add: demo_fs_def encode_frames_def frame_def put_be32_def)
  have h4: "\<forall>r\<in>set [[65::byte]]. length r < 2 ^ 32" by simp
  have h5: "int (length [[65::byte]]) < 256" by simp
  from removeBatch_beyond_count[OF h1 h2 h3 h4 h5]
  have "fst (removeBatchFromDisk ?fs ''capture_buffer.dat'' 256) = None
      \<and> file_at (snd (removeBatchFromDisk ?fs ''capture_buffer.dat'' 256)) ''capture_buffer.dat''
          = Some []"
    by (simp add: file_at_def demo_fs_def)
  with h1 h2 h3 h5 show ?thesis by simp
qed

theorem frame_round_trip_witness:
  "(names (demo_fs []) ''capture_buffer.dat'' = None
      \<or> (\<exists>i. names (demo_fs []) ''capture_buffer.dat'' = Some i \<and> \<not> locked (demo_fs []) i
             \<and> contents (demo_fs []) i = []))
   \<and> length [65::byte] \<le> maxRW \<and> length ([]::bytes) \<le> maxRW \<and> length [66,67::byte] \<le> maxRW
   \<and> int (length [[65], [], [66,67::byte]]) \<le> 256
   \<and> (\<exists>b fs1 b' fs'. NewFIFOBuffer (demo_fs []) ''capture_buffer.dat'' = Inr (b, fs1)
          \<and> append_all fs1 b [[65], [], [66,67]] = (None, b', fs')
          \<and> FIFO_ReadBatch fs' b' 256 = Inr [[65], [], [66,67]])"
proof -
  have h1: "names (demo_fs []) ''capture_buffer.dat'' = None
      \<or> (\<exists>i. names (demo_fs []) ''capture_buffer.dat'' = Some i \<and> \<not> locked (demo_fs []) i
             \<and> contents (demo_fs []) i = [])"
    by (simp add: demo_fs_def)
  have h2: "\<forall>r\<in>set [[65], [], [66,67::byte]]. length r \<le> maxRW" by (simp add: maxRW_def)
  have h3: "int (length [[65], [], [66,67::byte]]) \<le> 256" by simp
  from frame_round_trip[OF h1 h2 h3] h1 h2 h3 show ?thesis by simp
qed

lemma readBatch_long_record:
  assumes "names fs p = Some i" and "\<not> locked fs i"
    and "contents fs i = encode_frames [r]"
    and "maxRW < length r" and "length r < 2 ^ 32"
  shows "readBatchFromDisk fs p 1 = Inr [take maxRW r @ replicate (length r - maxRW) 0]"
proof -
  let ?f = "new_handle p i False"
  let ?f1 = "?f\<lparr>h_pos := h_pos ?f + 4\<rparr>"
  have r: "r \<noteq> []" using assms(4) by auto
  have len: "unat (of_nat (length r) :: u32) = length r"
    using assms(5) by (rule unat_len32)
  have rd: "f_Read fs ?f 4 = Inr (put_be32 (of_nat (length r)), ?f1)"
    using assms(3) by (intro f_Read_header[where rest = r]) (simp_all add: new_handle_def encode_frames_Cons)
  have "drop (h_pos ?f1) (contents fs (h_ino ?f1)) = r"
    using assms(3) by (simp add: new_handle_def encode_frames_Cons)
  then have rd2: "f_Read fs ?f1 (length r)
      = Inr (take maxRW r, ?f1\<lparr>h_pos := h_pos ?f1 + maxRW\<rparr>)"
    using r assms(4) by (simp add: f_Read_def Let_def new_handle_def min_def)
  have fill: "filled (length r) (take maxRW r) = take maxRW r @ replicate (length r - maxRW) 0"
    using assms(4) by (simp add: filled_def min_def)
  have "readFrames fs (Suc 0) ?f [] = [take maxRW r @ replicate (length r - maxRW) 0]"
    unfolding readFrames.simps rd by (simp add: be32_put_be32 len rd2 fill)
  then show ?thesis
    using assms(1,2) by (simp add: readBatchFromDisk_def os_Open_ok)
qed

lemma demo_NewFIFOBuffer:
  "NewFIFOBuffer (demo_fs []) ''capture_buffer.dat'' = Inr (demo_buffer, demo_fs [])"
  using NewFIFOBuffer_existing[of "demo_fs []" "''capture_buffer.dat''" 0]
  by (simp add: demo_fs_def demo_buffer_def)

lemma long_record_cut:
  "take maxRW (replicate 1073741825 (1::byte)) @ replicate (length (replicate 1073741825 (1::byte)) - maxRW) 0
     = replicate 1073741824 1 @ [0]"
  by (simp add: maxRW_def)

lemma long_record_differs:
  "replicate 1073741824 1 @ [0] \<noteq> replicate 1073741825 (1::byte)"
proof -
  have "replicate (1073741824 + 1) (1::byte) = replicate 1073741824 1 @ replicate 1 1"
    by (rule replicate_add)
  then have "replicate 1073741825 (1::byte) = replicate 1073741824 1 @ [1]"
    by simp
  then show ?thesis by simp
qed

text \<open>
  Claim C5, as stated, fails for a record of more than \<open>2 ^ 30\<close> bytes. \<^verbatim>\<open>Append\<close> writes
  all of it, but \<^verbatim>\<open>readBatchFromDisk\<close> reads the payload with a single \<^verbatim>\<open>f.Read\<close>, which
  transfers at most \<open>2 ^ 30\<close> bytes, and ignores the count: of a record of \<open>2 ^ 30 + 1\<close>
  bytes, all of them 1, \<^verbatim>\<open>ReadBatch\<close> returns the first \<open>2 ^ 30\<close> bytes and then a 0.
\<close>

theorem frame_round_trip_counterexample:
  "\<exists>b fs1 b' fs'. NewFIFOBuffer (demo_fs []) ''capture_buffer.dat'' = Inr (b, fs1)
      \<and> append_all fs1 b [replicate 1073741825 1] = (None, b', fs')
      \<and> FIFO_ReadBatch fs' b' 1 = Inr [replicate 1073741824 1 @ [0]]
      \<and> replicate 1073741824 1 @ [0] \<noteq> replicate 1073741825 (1::byte)"
proof -
  let ?r = "replicate 1073741825 (1::byte)"
  let ?fs' = "(demo_fs [])\<lparr>contents := (contents (demo_fs []))
                  (h_ino (file_handle demo_buffer) :=
                     contents (demo_fs []) (h_ino (file_handle demo_buffer)) @ encode_frames [?r])\<rparr>"
  from append_all_appends[of demo_buffer "demo_fs []" "[?r]"]
  obtain b' where app: "append_all (demo_fs []) demo_buffer [?r] = (None, b', ?fs')"
    and p: "path b' = path demo_buffer"
    by (auto simp: demo_buffer_def new_handle_def)
  have "readBatchFromDisk ?fs' ''capture_buffer.dat'' 1
          = Inr [take maxRW ?r @ replicate (length ?r - maxRW) 0]"
    by (rule readBatch_long_record[where i = 0])
       (simp_all add: demo_fs_def demo_buffer_def new_handle_def maxRW_def)
  then have "FIFO_ReadBatch ?fs' b' 1 = Inr [replicate 1073741824 1 @ [0]]"
    unfolding long_record_cut by (simp add: FIFO_ReadBatch_def p demo_buffer_def)
  with demo_NewFIFOBuffer app long_record_differs show ?thesis by blast
qed

subsection \<open>Append and the length of a record\<close>

text \<open>
  Claim C7, as stated, fails. \<^verbatim>\<open>FIFOBuffer.Append\<close> is \<^verbatim>\<open>writeLengthPrefixed\<close>, which
  compares the length of the record with nothing: a record of \<open>2 ^ 32\<close> bytes, longer than
  any length the header can carry, is accepted and written, under a header that says 0.
\<close>

theorem append_oversize_counterexample:
  "2 ^ 32 - 1 < length (replicate 4294967296 (0::byte))
   \<and> fst (FIFO_Append (demo_fs []) demo_buffer (replicate 4294967296 0)) = None
   \<and> contents (snd (snd (FIFO_Append (demo_fs []) demo_buffer (replicate 4294967296 0)))) 0
        = [0, 0, 0, 0] @ replicate 4294967296 0"
  by (simp add: FIFO_Append_def writeLengthPrefixed_def f_Write_def demo_buffer_def demo_fs_def
      new_handle_def put_be32_def Let_def)

text \<open>
  Claim C7, amended. \<^verbatim>\<open>Append\<close> rejects no record for its length: on an open file every
  record is accepted, and the four header bytes (the length modulo \<open>2 ^ 32\<close>, most
  significant first) and the whole record are appended to the buffer file. The only error
  is that of the write on a closed file, and then nothing is written.
\<close>

theorem append_accepts_every_length:
  assumes "h_append (file_handle b)"
  shows "FIFO_Append fs b data =
           (if h_closed (file_handle b)
            then (Some (PathError ''write'' (h_name (file_handle b)) ErrClosed), b, fs)
            else (None,
                  b\<lparr>file_handle := (file_handle b)
                       \<lparr>h_pos := length (contents fs (h_ino (file_handle b))) + 4 + length data\<rparr>\<rparr>,
                  fs\<lparr>contents := (contents fs)
                       (h_ino (file_handle b) :=
                          contents fs (h_ino (file_handle b))
                            @ put_be32 (of_nat (length data)) @ data)\<rparr>))"
proof (cases "h_closed (file_handle b)")
  case True
  then show ?thesis
    by (simp add: FIFO_Append_def writeLengthPrefixed_def f_Write_def Let_def)
next
  case False
  with assms show ?thesis
    by (simp add: FIFO_Append_def writeLengthPrefixed_appends)
qed

theorem append_accepts_every_length_witness:
  "h_append (file_handle demo_buffer)
   \<and> FIFO_Append (demo_fs []) demo_buffer (replicate 70000 7) =
       (None,
        demo_buffer\<lparr>file_handle := (file_handle demo_buffer)\<lparr>h_pos := 70004\<rparr>\<rparr>,
        (demo_fs [])\<lparr>contents := (contents (demo_fs []))(0 := [0, 1, 17, 112] @ replicate 70000 7)\<rparr>)"
proof -
  have h: "h_append (file_handle demo_buffer)"
    by (simp add: demo_buffer_def new_handle_def)
  have c: "\<not> h_closed (file_handle demo_buffer)" "h_ino (file_handle demo_buffer) = 0"
      "contents (demo_fs []) 0 = []"
    by (simp_all add: demo_buffer_def new_handle_def demo_fs_def)
  have p: "put_be32 (of_nat 70000) = [0, 1, 17, 112]"
    by (simp add: put_be32_def)
  from append_accepts_every_length[OF h, of "demo_fs []" "replicate 70000 7"] h c p
  show ?thesis by simp
qed

subsection \<open>The RED variant\<close>

lemma cb_apply_RED_FIFO:
  "\<exists>r b' fs'. cb_apply fs (FIFO (Some b)) opn = Returns (r, FIFO (Some b'), fs')
      \<and> cb_apply fs (RED (Some \<lparr>fifo = b\<rparr>)) opn = Returns (r, RED (Some \<lparr>fifo = b'\<rparr>), fs')"
  by (cases opn)
    (simp_all add: cb_apply_def cb_Append_def cb_ReadBatch_def cb_RemoveBatch_def cb_Len_def
      cb_SizeBytes_def cb_Close_def RED_Append_def RED_ReadBatch_def RED_RemoveBatch_def
      RED_Len_def RED_SizeBytes_def RED_Close_def split: prod.split)

lemma cb_run_RED_FIFO:
  "\<exists>rs b' fs'. cb_run fs (FIFO (Some b)) ops = Returns (rs, FIFO (Some b'), fs')
      \<and> cb_run fs (RED (Some \<lparr>fifo = b\<rparr>)) ops = Returns (rs, RED (Some \<lparr>fifo = b'\<rparr>), fs')"
proof (induction ops arbitrary: fs b)
  case Nil
  show ?case by simp
next
  case (Cons opn ops)
  from cb_apply_RED_FIFO[of fs b opn]
  obtain r b1 fs1 where
    a: "cb_apply fs (FIFO (Some b)) opn = Returns (r, FIFO (Some b1), fs1)"
       "cb_apply fs (RED (Some \<lparr>fifo = b\<rparr>)) opn = Returns (r, RED (Some \<lparr>fifo = b1\<rparr>), fs1)"
    by blast
  from Cons.IH[of fs1 b1]
  obtain rs b' fs' where
    r: "cb_run fs1 (FIFO (Some b1)) ops = Returns (rs, FIFO (Some b'), fs')"
       "cb_run fs1 (RED (Some \<lparr>fifo = b1\<rparr>)) ops = Returns (rs, RED (Some \<lparr>fifo = b'\<rparr>), fs')"
    by blast
  show ?case
    using a r by simp
qed

lemma demo_fifo_run:
  "\<exists>b fs'. observe_run BufferFIFO (demo_fs []) ''capture_buffer.dat''
       [Append [65], ReadBatch 1, SizeBytes, RemoveBatch 1, SizeBytes, Close, Append [66]] =
     Returns (Inr ([ErrResult None, BatchResult (Inr [[65]]), IntResult 5, ErrResult None,
                    IntResult 0, ErrResult None, ErrResult (Some (PathError ''write'' ''capture_buffer.dat'' ErrClosed))], b, fs'))"
  by (simp add: observe_run_def select_buffer_def BufferFIFO_def NewFIFOBuffer_def
      os_OpenFile_append_def demo_fs_def new_handle_def cb_apply_def cb_Append_def
      cb_ReadBatch_def cb_SizeBytes_def cb_RemoveBatch_def cb_Close_def FIFO_Append_def
      FIFO_ReadBatch_def FIFO_SizeBytes_def FIFO_RemoveBatch_def FIFO_Close_def
      writeLengthPrefixed_def f_Write_def put_be32_def readBatchFromDisk_def os_Open_def
      f_Read_def maxRW_def filled_def be32_def f_Stat_Size_def removeBatchFromDisk_def
      f_Seek_def os_Stat_Size_def os_Truncate_def f_Close_def Let_def)

text \<open>
  Claim C9. Whatever operations of the contract are run, with whatever inputs, on a buffer
  opened on a path: under the RED strategy the constructor's error, the results of the
  operations, the state of the underlying FIFO buffer and the file system are those of the
  FIFO strategy. No operation of the RED variant drops a record or reads a threshold.
\<close>

theorem red_is_fifo:
  "observe_run BufferRED fs p ops = observe_run BufferFIFO fs p ops"
proof (cases "NewFIFOBuffer fs p")
  case (Inl e)
  then show ?thesis
    by (simp add: observe_run_def select_buffer_def BufferRED_def BufferFIFO_def NewREDBuffer_def)
next
  case (Inr r)
  obtain b fs1 where r: "r = (b, fs1)" by (cases r)
  from cb_run_RED_FIFO[of fs1 b ops]
  obtain rs b' fs' where
    "cb_run fs1 (FIFO (Some b)) ops = Returns (rs, FIFO (Some b'), fs')"
    "cb_run fs1 (RED (Some \<lparr>fifo = b\<rparr>)) ops = Returns (rs, RED (Some \<lparr>fifo = b'\<rparr>), fs')"
    by blast
  with Inr r show ?thesis
    by (simp add: observe_run_def select_buffer_def BufferRED_def BufferFIFO_def NewREDBuffer_def)
qed

theorem red_is_fifo_witness:
  "\<exists>b fs'. observe_run BufferRED (demo_fs []) ''capture_buffer.dat''
       [Append [65], ReadBatch 1, SizeBytes, RemoveBatch 1, SizeBytes, Close, Append [66]] =
     Returns (Inr ([ErrResult None, BatchResult (Inr [[65]]), IntResult 5, ErrResult None,
                    IntResult 0, ErrResult None, ErrResult (Some (PathError ''write'' ''capture_buffer.dat'' ErrClosed))], b, fs'))"
  using demo_fifo_run
  by (simp only: red_is_fifo[of "demo_fs []" "''capture_buffer.dat''"])

subsection \<open>The timed source reader\<close>

lemma captureLines_timings:
  assumes "cm_stopCh cm \<noteq> Some True" and "buffer_usable cm"
  shows "\<exists>cm' fs'. captureLines pf fs cm st lines out =
            Returns (False, out @ timings pf st lines, cm', fs')"
  using assms
proof (induction lines arbitrary: fs cm st out)
  case Nil
  show ?case by simp
next
  case (Cons line lines)
  obtain w st' where t: "timing (leading_timestamp pf line) st = (w, st')"
    by (cases "timing (leading_timestamp pf line) st")
  let ?out' = "out @ [\<lparr>slept = w, payload = line\<rparr>]"
  show ?case
  proof (cases "cm_bufferImpl cm")
    case None
    let ?cm1 = "cm\<lparr>cm_buffer := cm_buffer cm @ [line]\<rparr>"
    have "cm_stopCh ?cm1 \<noteq> Some True" "buffer_usable ?cm1"
      using Cons.prems by (simp_all add: buffer_usable_def)
    from Cons.IH[OF this, of fs st' ?out'] 
    show ?thesis using Cons.prems(1) None t by simp
  next
    case (Some cb)
    with Cons.prems(2) obtain e cb' fs1 where
      a: "cb_Append fs cb line = Returns (e, cb', fs1)" and
      u: "buffer_usable (cm\<lparr>cm_bufferImpl := Some cb'\<rparr>)"
      by (cases cb; cases "FIFO_Append fs (the (backing_fifo cb)) line")
         (auto simp: buffer_usable_def cb_Append_def RED_Append_def split: option.splits prod.splits)
    let ?cm1 = "cm\<lparr>cm_bufferImpl := Some cb'\<rparr>"
    have "cm_stopCh ?cm1 \<noteq> Some True" using Cons.prems(1) by simp
    from Cons.IH[OF this u, of fs1 st' ?out']
    show ?thesis using Cons.prems(1) Some t a by simp
  qed
qed

lemma length_timings [simp]: "length (timings pf st lines) = length lines"
  by (induction lines arbitrary: st) (auto split: prod.splits)

lemma payload_timings: "j < length lines \<Longrightarrow> payload (timings pf st lines ! j) = lines ! j"
proof (induction lines arbitrary: st j)
  case Nil
  then show ?case by simp
next
  case (Cons line lines)
  then show ?case by (cases j) (auto split: prod.splits)
qed

lemma timings_unparsed:
  "j < length lines \<Longrightarrow> leading_timestamp pf (lines ! j) = None \<Longrightarrow>
     slept (timings pf st lines ! j) = None"
proof (induction lines arbitrary: st j)
  case Nil
  then show ?case by simp
next
  case (Cons line lines)
  then show ?case by (cases j) (auto simp: timing_def split: prod.splits)
qed

text \<open>The sleep of a parsed line is decided against the last parsed line before it.\<close>

lemma timings_after_parsed:
  assumes "\<not> first st" and "j < length lines"
    and "leading_timestamp pf (lines ! j) = Some b"
    and "\<forall>k<j. leading_timestamp pf (lines ! k) = None"
  shows "slept (timings pf st lines ! j) =
       (if f_less (Fin 0) (f_sub b (lastTimestamp st)) \<and> f_less (f_sub b (lastTimestamp st)) (Fin 10)
        then duration_of (f_sub b (lastTimestamp st)) else None)"
  using assms
proof (induction lines arbitrary: j)
  case Nil
  then show ?case by simp
next
  case (Cons line lines)
  show ?case
  proof (cases j)
    case 0
    with Cons.prems show ?thesis by (auto simp: timing_def Let_def)
  next
    case (Suc j')
    with Cons.prems have u: "leading_timestamp pf line = None" by auto
    from Suc Cons.prems have "j' < length lines" "leading_timestamp pf (lines ! j') = Some b"
      "\<forall>k<j'. leading_timestamp pf (lines ! k) = None" by auto
    from Cons.IH[OF Cons.prems(1) this] Suc u show ?thesis by (simp add: timing_def)
  qed
qed

lemma timings_first_parsed:
  assumes "first st" and "j < length lines"
    and "leading_timestamp pf (lines ! j) = Some b"
    and "\<forall>k<j. leading_timestamp pf (lines ! k) = None"
  shows "slept (timings pf st lines ! j) = None"
  using assms
proof (induction lines arbitrary: j)
  case Nil
  then show ?case by simp
next
  case (Cons line lines)
  show ?case
  proof (cases j)
    case 0
    with Cons.prems show ?thesis by (simp add: timing_def)
  next
    case (Suc j')
    with Cons.prems have u: "leading_timestamp pf line = None" by auto
    from Suc Cons.prems have "j' < length lines" "leading_timestamp pf (lines ! j') = Some b"
      "\<forall>k<j'. leading_timestamp pf (lines ! k) = None" by auto
    from Cons.IH[OF Cons.prems(1) this] Suc u show ?thesis by (simp add: timing_def)
  qed
qed

lemma timing_parsed_state:
  "\<not> first (snd (timing (Some a) st))" "lastTimestamp (snd (timing (Some a) st)) = a"
  by (simp_all add: timing_def Let_def)

lemma timings_previous:
  assumes "i < j" and "j < length lines"
    and "leading_timestamp pf (lines ! i) = Some a"
    and "leading_timestamp pf (lines ! j) = Some b"
    and "\<forall>k. i < k \<and> k < j \<longrightarrow> leading_timestamp pf (lines ! k) = None"
  shows "slept (timings pf st lines ! j) =
       (if f_less (Fin 0) (f_sub b a) \<and> f_less (f_sub b a) (Fin 10)
        then duration_of (f_sub b a) else None)"
  using assms
proof (induction lines arbitrary: st i j)
  case Nil
  then show ?case by simp
next
  case (Cons line lines)
  from Cons.prems(1) obtain j' where j: "j = Suc j'" by (cases j) simp_all
  obtain w st' where t: "timing (leading_timestamp pf line) st = (w, st')"
    by (cases "timing (leading_timestamp pf line) st")
  have nth: "timings pf st (line # lines) ! j = timings pf st' lines ! j'"
    using j t by simp
  show ?case
  proof (cases i)
    case 0
    with Cons.prems(3) have p: "leading_timestamp pf line = Some a" by simp
    with t have st': "\<not> first st'" "lastTimestamp st' = a"
      using timing_parsed_state[of a st] by simp_all
    have "j' < length lines" "leading_timestamp pf (lines ! j') = Some b"
      using Cons.prems(2,4) j by simp_all
    moreover have "\<forall>k<j'. leading_timestamp pf (lines ! k) = None"
    proof (intro allI impI)
      fix k assume "k < j'"
      with Cons.prems(5)[rule_format, of "Suc k"] 0 j
      show "leading_timestamp pf (lines ! k) = None" by simp
    qed
    ultimately show ?thesis
      using timings_after_parsed[OF st'(1), of j' lines pf b] st'(2) nth by simp
  next
    case (Suc i')
    have "i' < j'" "j' < length lines" "leading_timestamp pf (lines ! i') = Some a"
      "leading_timestamp pf (lines ! j') = Some b"
      using Cons.prems(1-4) Suc j by simp_all
    moreover have "\<forall>k. i' < k \<and> k < j' \<longrightarrow> leading_timestamp pf (lines ! k) = None"
    proof (intro allI impI)
      fix k assume "i' < k \<and> k < j'"
      with Cons.prems(5)[rule_format, of "Suc k"] Suc j
      show "leading_timestamp pf (lines ! k) = None" by simp
    qed
    ultimately show ?thesis
      using Cons.IH[of i' j' st'] nth by simp
  qed
qed

subsection \<open>Rounding to \<^verbatim>\<open>float64\<close>\<close>

lemma rhe_of_int [simp]: "round_half_even (of_int n) = n"
  by (simp add: round_half_even_def)

lemma rhe_ge_int: "of_int n \<le> q \<Longrightarrow> n \<le> round_half_even q"
proof -
  assume "of_int n \<le> q"
  then have "n \<le> \<lfloor>q\<rfloor>" by (simp add: le_floor_iff)
  then show ?thesis by (auto simp: round_half_even_def Let_def)
qed

lemma rhe_le_int: "q \<le> of_int n \<Longrightarrow> round_half_even q \<le> n"
proof (cases "q = of_int n")
  case True
  then show ?thesis by simp
next
  case False
  assume "q \<le> of_int n"
  with False have "q < of_int n" by simp
  then have "\<lfloor>q\<rfloor> < n" by (simp add: floor_less_iff)
  then show ?thesis by (auto simp: round_half_even_def Let_def)
qed

lemma exp_search_le: "exp_search n s \<le> n"
  by (induction n) auto

lemma exp_search_lower: "exp_search n s = 0 \<or> 2 ^ exp_search n s \<le> s"
  by (induction n) auto

lemma exp_search_eq:
  assumes "k \<le> n" and "k = 0 \<or> 2 ^ k \<le> s" and "s < 2 ^ Suc k"
  shows "exp_search n s = k"
  using assms
proof (induction n)
  case 0
  then show ?case by simp
next
  case (Suc n)
  show ?case
  proof (cases "k = Suc n")
    case True
    with Suc.prems show ?thesis by auto
  next
    case False
    with Suc.prems have kn: "k \<le> n" by simp
    have "(2::real) ^ Suc k \<le> 2 ^ Suc n"
      using kn by (intro power_increasing) simp_all
    with Suc.prems(3) have "\<not> 2 ^ Suc n \<le> s" by linarith
    with Suc.IH[OF kn Suc.prems(2,3)] show ?thesis by simp
  qed
qed

lemma round64_at:
  assumes "t \<le> 1074" and "t = 1074 \<or> 2 ^ 52 \<le> \<bar>x\<bar> * 2 ^ t" and "\<bar>x\<bar> * 2 ^ t < 2 ^ 53"
  shows "round64 x = Fin (of_int (round_half_even (x * 2 ^ t)) / 2 ^ t)"
proof -
  define k where "k = 1074 - t"
  define B :: real where "B = 2 ^ 1022"
  define c :: real where "c = 2 ^ 52"
  define P :: real where "P = 2 ^ 1074"
  define K :: real where "K = 2 ^ k"
  define T :: real where "T = 2 ^ t"
  define H :: real where "H = 2 ^ 1024"
  have kt: "k + t = 1074" using assms(1) by (simp add: k_def)
  have pos: "0 < B" "0 < c" "0 < P" "0 < K" "0 < T" "1 \<le> T"
    by (simp_all add: B_def c_def P_def K_def T_def)
  have P: "P = K * T"
    unfolding P_def K_def T_def using kt by (metis power_add)
  have Bc: "B * c = P"
    unfolding B_def c_def P_def by (simp only: flip: power_add) simp
  have c2: "(2::real) ^ 53 = 2 * c" by (simp add: c_def)
  have a3: "\<bar>x\<bar> * T < 2 * c" using assms(3) by (simp only: T_def c2)
  have s: "\<bar>x\<bar> * T * K = \<bar>x\<bar> * B * c"
    by (simp only: mult.assoc Bc P mult.commute[of T K])
  have lo: "k = 0 \<or> K \<le> \<bar>x\<bar> * B"
  proof (cases "k = 0")
    case False
    then have "t \<noteq> 1074" using kt by simp
    with assms(2) have "c \<le> \<bar>x\<bar> * T" unfolding c_def T_def by blast
    then have "c * K \<le> \<bar>x\<bar> * T * K"
      using pos(4) by (intro mult_right_mono) simp_all
    then have "K * c \<le> (\<bar>x\<bar> * B) * c" by (simp only: s mult.commute[of c K])
    then have "K \<le> \<bar>x\<bar> * B" using pos(2) by (simp only: mult_le_cancel_right_pos)
    then show ?thesis by blast
  qed simp
  have hi: "\<bar>x\<bar> * B < 2 * K"
  proof -
    have "\<bar>x\<bar> * T * K < 2 * c * K"
      using a3 pos(4) by (intro mult_strict_right_mono) simp_all
    then have "\<bar>x\<bar> * B * c < 2 * c * K" by (simp only: s)
    then have "(\<bar>x\<bar> * B) * c < (2 * K) * c"
      by (simp only: mult.assoc mult.commute[of c K])
    then show ?thesis using pos(2) by (simp only: mult_less_cancel_right_pos)
  qed
  have "k \<le> 2045" using kt by simp
  moreover have "k = 0 \<or> 2 ^ k \<le> \<bar>x\<bar> * 2 ^ 1022"
    using lo by (simp only: K_def B_def)
  moreover have "\<bar>x\<bar> * 2 ^ 1022 < 2 ^ Suc k"
    using hi by (simp only: K_def B_def power_Suc)
  ultimately have e: "exp_search 2045 (\<bar>x\<bar> * 2 ^ 1022) = k"
    by (rule exp_search_eq)
  have "x * P / K = x * T" using P pos(4) by simp
  then have q: "x * 2 ^ 1074 / 2 ^ k = x * 2 ^ t"
    by (simp only: P_def K_def T_def)
  define m where "m = round_half_even (x * 2 ^ t)"
  have "of_int m * K / P = of_int m / T" using P pos(4) by simp
  then have r: "real_of_int m * 2 ^ k / 2 ^ 1074 = of_int m / 2 ^ t"
    by (simp only: P_def K_def T_def)
  have "\<bar>x * 2 ^ t\<bar> < 2 ^ 53" using assms(3) by (simp add: abs_mult)
  then have ax: "- (2 ^ 53) \<le> x * 2 ^ t" "x * 2 ^ t \<le> 2 ^ 53"
    by linarith+
  have "m \<le> 2 ^ 53" unfolding m_def using ax(2) by (intro rhe_le_int) simp
  then have "real_of_int m \<le> real_of_int (2 ^ 53)" by (simp only: of_int_le_iff)
  then have m1: "real_of_int m \<le> 2 ^ 53" by simp
  have "- (2 ^ 53) \<le> m" unfolding m_def using ax(1) by (intro rhe_ge_int) simp
  then have "real_of_int (- (2 ^ 53)) \<le> real_of_int m" by (simp only: of_int_le_iff)
  then have m2: "- (2 ^ 53) \<le> real_of_int m" by simp
  have t1: "(1::real) \<le> 2 ^ t" by simp
  have u: "of_int m / 2 ^ t \<le> (2 ^ 53 :: real)"
  proof -
    have "of_int m / 2 ^ t \<le> (2 ^ 53 :: real) / 2 ^ t" by (rule divide_right_mono[OF m1]) simp
    also have "\<dots> \<le> 2 ^ 53" using t1 by (simp add: field_simps)
    finally show ?thesis .
  qed
  have l: "- (2 ^ 53 :: real) \<le> of_int m / 2 ^ t"
  proof -
    have "- (2 ^ 53 :: real) \<le> - (2 ^ 53) / 2 ^ t" using t1 by (simp add: field_simps)
    also have "\<dots> \<le> of_int m / 2 ^ t" by (rule divide_right_mono[OF m2]) simp
    finally show ?thesis .
  qed
  have big: "(2::real) ^ 53 < H" unfolding H_def by (intro power_strict_increasing) simp_all
  have "of_int m / 2 ^ t < H" using u big by (rule le_less_trans)
  then have n1: "\<not> 2 ^ 1024 \<le> of_int m / (2 ^ t :: real)" by (simp only: H_def not_le)
  have "- H < - (2 ^ 53 :: real)" using big by simp
  then have "- H < of_int m / 2 ^ t" using l by (rule less_le_trans)
  then have n2: "\<not> of_int m / (2 ^ t :: real) \<le> - (2 ^ 1024)" by (simp only: H_def not_le)
  show ?thesis
    by (simp only: round64_def Let_def e q r n1 n2 if_False flip: m_def)
qed

lemma round64_0: "round64 0 = Fin 0"
  using round64_at[of 1074 0] by (simp add: round_half_even_def)

lemma round64_100: "round64 100 = Fin 100"
  using round64_at[of 46 100] by (simp add: round_half_even_def)

lemma round64_10_1_minus_0_1:
  "round64 (5685794529555251 / 2 ^ 49 - 3602879701896397 / 2 ^ 55) = Fin 10"
  using round64_at[of 49 "5685794529555251 / 2 ^ 49 - 3602879701896397 / 2 ^ 55"]
  by (simp add: round_half_even_def)

lemma round64_0_3_seconds:
  "round64 (5404319552844595 / 2 ^ 54 * 1000000000) = Fin 300000000"
  using round64_at[of 24 "5404319552844595 / 2 ^ 54 * 1000000000"]
  by (simp add: round_half_even_def)


lemma exp_search_ge:
  "j \<le> n \<Longrightarrow> 1 \<le> j \<Longrightarrow> 2 ^ j \<le> s \<Longrightarrow> j \<le> exp_search n s"
proof (induction n)
  case 0
  then show ?case by simp
next
  case (Suc n)
  show ?case
  proof (cases "j = Suc n")
    case True
    with Suc.prems show ?thesis by simp
  next
    case False
    with Suc.prems have jn: "j \<le> n" by simp
    from Suc.IH[OF this Suc.prems(2,3)] jn show ?thesis by simp
  qed
qed

lemma round64_small:
  assumes "\<bar>x\<bar> < 2 ^ 53"
  shows "\<exists>r. round64 x = Fin r
           \<and> (\<forall>C. of_int C \<le> x \<longrightarrow> of_int C \<le> r) \<and> (\<forall>C. x \<le> of_int C \<longrightarrow> r \<le> of_int C)"
proof -
  define k where "k = exp_search 2045 (\<bar>x\<bar> * 2 ^ 1022)"
  define B :: real where "B = 2 ^ 1022"
  define P :: real where "P = 2 ^ 1074"
  define K :: real where "K = 2 ^ k"
  define H :: real where "H = 2 ^ 1024"
  have k1074: "k \<le> 1074"
  proof (rule ccontr)
    assume "\<not> k \<le> 1074"
    then have k: "1075 \<le> k" by simp
    then have "k \<noteq> 0" by simp
    with exp_search_lower[of 2045 "\<bar>x\<bar> * 2 ^ 1022"] have "2 ^ k \<le> \<bar>x\<bar> * B"
      unfolding k_def B_def by blast
    moreover have "(2::real) ^ 1075 \<le> 2 ^ k" using k by (intro power_increasing) simp_all
    moreover have "(2::real) ^ 1075 = 2 ^ 53 * B" unfolding B_def by (simp only: flip: power_add) simp
    ultimately have "2 ^ 53 * B \<le> \<bar>x\<bar> * B" by simp
    moreover have "0 < B" by (simp add: B_def)
    ultimately have "2 ^ 53 \<le> \<bar>x\<bar>" by (simp only: mult_le_cancel_right_pos)
    with assms show False by simp
  qed
  define j where "j = 1074 - k"
  define J :: real where "J = 2 ^ j"
  have "k + j = 1074" using k1074 by (simp add: j_def)
  then have P: "P = K * J" unfolding P_def K_def J_def by (metis power_add)
  have pos: "0 < K" "0 < J" "1 \<le> J" by (simp_all add: K_def J_def)
  define m where "m = round_half_even (x * J)"
  have q: "x * P / K = x * J" using P pos(1) by simp
  have r: "of_int m * K / P = of_int m / J" using P pos(1) by simp
  have up: "of_int m / J \<le> of_int C" if "x \<le> of_int C" for C
  proof -
    have "x * J \<le> of_int C * J" using that pos(2) by (simp only: mult_le_cancel_right_pos)
    also have "\<dots> = of_int (C * 2 ^ j)" by (simp add: J_def)
    finally have "m \<le> C * 2 ^ j" unfolding m_def by (rule rhe_le_int)
    then have "real_of_int m \<le> real_of_int (C * 2 ^ j)" by (simp only: of_int_le_iff)
    then have "of_int m \<le> of_int C * J" by (simp add: J_def)
    then show ?thesis using pos(2) by (simp add: field_simps)
  qed
  have lw: "of_int C \<le> of_int m / J" if "of_int C \<le> x" for C
  proof -
    have "of_int (C * 2 ^ j) = of_int C * J" by (simp add: J_def)
    also have "\<dots> \<le> x * J" using that pos(2) by (simp only: mult_le_cancel_right_pos)
    finally have "C * 2 ^ j \<le> m" unfolding m_def by (rule rhe_ge_int)
    then have "real_of_int (C * 2 ^ j) \<le> real_of_int m" by (simp only: of_int_le_iff)
    then have "of_int C * J \<le> of_int m" by (simp add: J_def)
    then show ?thesis using pos(2) by (simp add: field_simps)
  qed
  have "x \<le> of_int (2 ^ 53)" "of_int (- (2 ^ 53)) \<le> x" using assms by simp_all
  from up[OF this(1)] lw[OF this(2)]
  have b: "of_int m / J \<le> 2 ^ 53" "- (2 ^ 53) \<le> of_int m / J" by simp_all
  have big: "(2::real) ^ 53 < H" unfolding H_def by (intro power_strict_increasing) simp_all
  have "of_int m / J < H" using b(1) big by (rule le_less_trans)
  then have n1: "\<not> H \<le> of_int m / J" by (simp only: not_le)
  have "- H < - (2 ^ 53 :: real)" using big by simp
  then have "- H < of_int m / J" using b(2) by (rule less_le_trans)
  then have n2: "\<not> of_int m / J \<le> - H" by (simp only: not_le)
  have "round64 x = Fin (of_int m / J)"
    unfolding round64_def Let_def
    by (simp only: q r n1 n2 if_False flip: k_def P_def K_def H_def m_def)
  with up lw show ?thesis by blast
qed

lemma round64_large:
  assumes "2 ^ 53 \<le> x"
  shows "round64 x = PInf \<or> (\<exists>r. round64 x = Fin r \<and> 2 ^ 53 \<le> r)"
proof -
  define k where "k = exp_search 2045 (\<bar>x\<bar> * 2 ^ 1022)"
  define B :: real where "B = 2 ^ 1022"
  define c :: real where "c = 2 ^ 52"
  define P :: real where "P = 2 ^ 1074"
  define K :: real where "K = 2 ^ k"
  define H :: real where "H = 2 ^ 1024"
  have "(0::real) < 2 ^ 53" by simp
  with assms have x0: "0 < x" "\<bar>x\<bar> = x" by linarith+
  have pos: "0 < B" "0 < c" "0 < P" "0 < K" by (simp_all add: B_def c_def P_def K_def)
  have Bc: "B * c = P" unfolding B_def c_def P_def by (simp only: flip: power_add) simp
  have "(2::real) ^ 1075 = 2 ^ 53 * B" unfolding B_def by (simp only: flip: power_add) simp
  also have "\<dots> \<le> \<bar>x\<bar> * B" using assms x0 pos(1) by (simp only: mult_le_cancel_right_pos)
  finally have "2 ^ 1075 \<le> \<bar>x\<bar> * 2 ^ 1022" by (simp only: B_def)
  then have "1075 \<le> exp_search 2045 (\<bar>x\<bar> * 2 ^ 1022)"
    by (intro exp_search_ge) simp_all
  then have k: "1075 \<le> k" by (simp only: k_def)
  then have "k \<noteq> 0" by simp
  with exp_search_lower[of 2045 "\<bar>x\<bar> * 2 ^ 1022"] have KB: "K \<le> x * B"
    unfolding k_def B_def K_def x0(2) by blast
  define m where "m = round_half_even (x * P / K)"
  have "c * K \<le> c * (x * B)" using KB pos(2) by (simp only: mult_le_cancel_left_pos)
  also have "\<dots> = x * P" by (simp only: Bc[symmetric] mult.assoc mult.commute mult.left_commute)
  finally have "c \<le> x * P / K" using pos(4) by (simp add: field_simps)
  then have "of_int (2 ^ 52) \<le> x * P / K" by (simp add: c_def)
  then have "2 ^ 52 \<le> m" unfolding m_def by (rule rhe_ge_int)
  then have "real_of_int (2 ^ 52) \<le> real_of_int m" by (simp only: of_int_le_iff)
  then have mc: "c \<le> of_int m" by (simp add: c_def)
  have "(2::real) ^ 1075 \<le> 2 ^ k" using k by (intro power_increasing) simp_all
  moreover have "(2::real) ^ 1075 = 2 * P" unfolding P_def by simp
  ultimately have KP: "2 * P \<le> K" by (simp only: K_def)
  have "2 * c * P \<le> c * K" using KP pos(2) by simp
  also have "\<dots> \<le> of_int m * K" using mc pos(4) by (simp only: mult_le_cancel_right_pos)
  finally have "2 * c \<le> of_int m * K / P" using pos(3) by (simp add: field_simps)
  moreover have "2 * c = 2 ^ 53" by (simp add: c_def)
  ultimately have r53: "2 ^ 53 \<le> of_int m * K / P" by simp
  have "- H < 0" by (simp add: H_def)
  also have "0 < (2::real) ^ 53" by simp
  also note r53
  finally have n2: "\<not> of_int m * K / P \<le> - H" by (simp only: not_le)
  have "round64 x = (if H \<le> of_int m * K / P then PInf else Fin (of_int m * K / P))"
    unfolding round64_def Let_def
    by (simp only: n2 if_False flip: k_def P_def K_def H_def m_def)
  with r53 show ?thesis by auto
qed

lemma not_less_zero_round64:
  assumes "x \<le> 0"
  shows "\<not> f_less (Fin 0) (round64 x)"
proof -
  define k where "k = exp_search 2045 (\<bar>x\<bar> * 2 ^ 1022)"
  define P :: real where "P = 2 ^ 1074"
  define K :: real where "K = 2 ^ k"
  define H :: real where "H = 2 ^ 1024"
  define m where "m = round_half_even (x * P / K)"
  have pos: "0 < P" "0 < K" "0 < H" by (simp_all add: P_def K_def H_def)
  have "x * P \<le> 0" using assms pos(1) by (intro mult_nonpos_nonneg) simp_all
  then have "x * P / K \<le> 0" using pos(2) by (intro divide_nonpos_pos)
  then have "x * P / K \<le> of_int 0" by simp
  then have "m \<le> 0" unfolding m_def by (rule rhe_le_int)
  then have "real_of_int m \<le> 0" by simp
  then have "of_int m * K \<le> 0" using pos(2) by (intro mult_nonpos_nonneg) simp_all
  then have r0: "of_int m * K / P \<le> 0" using pos(1) by (intro divide_nonpos_pos)
  then have n1: "\<not> H \<le> of_int m * K / P" using pos(3) by linarith
  have "round64 x = (if of_int m * K / P \<le> - H then NInf else Fin (of_int m * K / P))"
    unfolding round64_def Let_def
    by (simp only: n1 if_False flip: k_def P_def K_def H_def m_def)
  with r0 show ?thesis by auto
qed

lemma not_less_ten_round64:
  assumes "10 \<le> x"
  shows "\<not> f_less (round64 x) (Fin 10)"
proof (cases "\<bar>x\<bar> < 2 ^ 53")
  case True
  from assms have "of_int 10 \<le> x" by simp
  with round64_small[OF True] obtain r where "round64 x = Fin r" "of_int 10 \<le> r" by blast
  then show ?thesis by simp
next
  case False
  with assms have "2 ^ 53 \<le> x" by simp
  from round64_large[OF this] show ?thesis by auto
qed

lemma guard_nonpos: "b - a \<le> 0 \<Longrightarrow> \<not> f_less (Fin 0) (f_sub (Fin b) (Fin a))"
  by (simp add: not_less_zero_round64)

lemma guard_ge_ten: "10 \<le> b - a \<Longrightarrow> \<not> f_less (f_sub (Fin b) (Fin a)) (Fin 10)"
  by (simp add: not_less_ten_round64)

lemma duration_of_bounded:
  assumes "f_less (Fin 0) delta" and "f_less delta (Fin 10)"
  shows "\<exists>n. duration_of delta = Some n \<and> 0 \<le> n \<and> n \<le> 10000000000"
proof -
  from assms obtain d where d: "delta = Fin d" "0 < d" "d < 10"
    by (cases delta) simp_all
  have "\<bar>d * 1000000000\<bar> < 2 ^ 53" using d by simp
  from round64_small[OF this] obtain r where r: "round64 (d * 1000000000) = Fin r"
    "\<forall>C. of_int C \<le> d * 1000000000 \<longrightarrow> of_int C \<le> r"
    "\<forall>C. d * 1000000000 \<le> of_int C \<longrightarrow> r \<le> of_int C"
    by blast
  from r(2)[rule_format, of 0] d have r0: "0 \<le> r" by simp
  from r(3)[rule_format, of 10000000000] d have r1: "r \<le> 10000000000" by simp
  have t: "trunc r = \<lfloor>r\<rfloor>" using r0 by (simp add: trunc_def)
  have "0 \<le> \<lfloor>r\<rfloor>" using r0 by simp
  moreover have "\<lfloor>r\<rfloor> \<le> 10000000000" using r1 by (simp add: floor_le_iff)
  ultimately show ?thesis
    using d r(1) t by (simp add: duration_of_def)
qed

subsection \<open>The waits of the reader\<close>

text \<open>
  Claim C1, amended. A run of \<^verbatim>\<open>captureLoop\<close> that is not stopped forwards every line.
  Before a line whose timestamp parses to \<open>b\<close>, where the last line before it whose
  timestamp parses gave \<open>a\<close> (for consecutive parsed lines, the line just before), the
  reader computes the \<^verbatim>\<open>float64\<close> difference \<open>delta = b - a\<close>; when \<open>0 < delta < 10\<close> it
  sleeps \<open>delta\<close> seconds, as the nanoseconds of \<^verbatim>\<open>time.Duration(delta * 1e9)\<close>, which
  are at most \<open>10 ^ 10\<close>; otherwise it does not sleep. In particular it does not sleep when
  the timestamps are 10 s or more apart, or not increasing. It does not sleep before a
  line whose own timestamp does not parse, nor before the first line whose timestamp
  parses.
\<close>

theorem capture_wait_skips_long_gaps:
  assumes "cm_stopCh cm \<noteq> Some True" and "buffer_usable cm"
  shows "\<exists>out cm' fs'. captureLoop pf fs cm lines scanErr = Returns (out, cm', fs')
     \<and> length out = length lines
     \<and> (\<forall>j. j < length lines \<longrightarrow> payload (out ! j) = lines ! j)
     \<and> (\<forall>j. j < length lines \<and> leading_timestamp pf (lines ! j) = None \<longrightarrow> slept (out ! j) = None)
     \<and> (\<forall>j b. j < length lines \<and> leading_timestamp pf (lines ! j) = Some b
              \<and> (\<forall>k<j. leading_timestamp pf (lines ! k) = None)
           \<longrightarrow> slept (out ! j) = None)
     \<and> (\<forall>i j a b. i < j \<and> j < length lines
              \<and> leading_timestamp pf (lines ! i) = Some a
              \<and> leading_timestamp pf (lines ! j) = Some b
              \<and> (\<forall>k. i < k \<and> k < j \<longrightarrow> leading_timestamp pf (lines ! k) = None)
           \<longrightarrow> slept (out ! j) =
                 (if f_less (Fin 0) (f_sub b a) \<and> f_less (f_sub b a) (Fin 10)
                  then duration_of (f_sub b a) else None)
               \<and> (\<forall>n. slept (out ! j) = Some n \<longrightarrow> 0 \<le> n \<and> n \<le> 10000000000)
               \<and> (\<forall>x y. a = Fin x \<and> b = Fin y \<and> (y - x \<le> 0 \<or> 10 \<le> y - x)
                      \<longrightarrow> slept (out ! j) = None))"
proof -
  let ?st = "\<lparr>lastTimestamp = Fin 0, first = True\<rparr>"
  let ?out = "timings pf ?st lines"
  from captureLines_timings[OF assms, of pf fs ?st lines "[]"]
  obtain cm' fs' where r: "captureLines pf fs cm ?st lines [] = Returns (False, ?out, cm', fs')"
    by auto
  have ret: "\<exists>cm''. captureLoop pf fs cm lines scanErr = Returns (?out, cm'', fs')"
    using r by (cases scanErr) (simp_all add: captureLoop_def)
  have pay: "\<forall>j. j < length lines \<longrightarrow> payload (?out ! j) = lines ! j"
    by (simp add: payload_timings)
  have unp: "\<forall>j. j < length lines \<and> leading_timestamp pf (lines ! j) = None
           \<longrightarrow> slept (?out ! j) = None"
    by (simp add: timings_unparsed)
  have fst: "\<forall>j b. j < length lines \<and> leading_timestamp pf (lines ! j) = Some b
              \<and> (\<forall>k<j. leading_timestamp pf (lines ! k) = None)
           \<longrightarrow> slept (?out ! j) = None"
    using timings_first_parsed[of ?st _ lines pf] by simp
  have prev: "slept (?out ! j) =
                 (if f_less (Fin 0) (f_sub b a) \<and> f_less (f_sub b a) (Fin 10)
                  then duration_of (f_sub b a) else None)
               \<and> (\<forall>n. slept (?out ! j) = Some n \<longrightarrow> 0 \<le> n \<and> n \<le> 10000000000)
               \<and> (\<forall>x y. a = Fin x \<and> b = Fin y \<and> (y - x \<le> 0 \<or> 10 \<le> y - x)
                      \<longrightarrow> slept (?out ! j) = None)"
    if h: "i < j \<and> j < length lines
              \<and> leading_timestamp pf (lines ! i) = Some a
              \<and> leading_timestamp pf (lines ! j) = Some b
              \<and> (\<forall>k. i < k \<and> k < j \<longrightarrow> leading_timestamp pf (lines ! k) = None)"
    for i j a b
  proof -
    from h have w: "slept (?out ! j) =
                 (if f_less (Fin 0) (f_sub b a) \<and> f_less (f_sub b a) (Fin 10)
                  then duration_of (f_sub b a) else None)"
      by (intro timings_previous[of i j]) simp_all
    have bound: "\<forall>n. slept (?out ! j) = Some n \<longrightarrow> 0 \<le> n \<and> n \<le> 10000000000"
    proof (cases "f_less (Fin 0) (f_sub b a) \<and> f_less (f_sub b a) (Fin 10)")
      case True
      with duration_of_bounded[of "f_sub b a"] w show ?thesis by auto
    next
      case False
      with w show ?thesis by simp
    qed
    have far: "\<forall>x y. a = Fin x \<and> b = Fin y \<and> (y - x \<le> 0 \<or> 10 \<le> y - x)
                      \<longrightarrow> slept (?out ! j) = None"
      using w guard_nonpos guard_ge_ten by auto
    from w bound far show ?thesis by blast
  qed
  from ret obtain cm'' where "captureLoop pf fs cm lines scanErr = Returns (?out, cm'', fs')"
    by blast
  moreover have "length ?out = length lines" by simp
  ultimately show ?thesis
    using pay unp fst prev by blast
qed

lemma demo_lines:
  "leading_timestamp demo_parseFloat (bytes_of ''0.0 A'') = Some (Fin 0)"
  "leading_timestamp demo_parseFloat (bytes_of ''0.1 A'') = Some (Fin f64_0_1)"
  "leading_timestamp demo_parseFloat (bytes_of ''0.3 B'') = Some (Fin f64_0_3)"
  "leading_timestamp demo_parseFloat (bytes_of ''10.1 B'') = Some (Fin f64_10_1)"
  "leading_timestamp demo_parseFloat (bytes_of ''100.0 B'') = Some (Fin 100)"
  by (simp_all add: leading_timestamp_def demo_parseFloat_def bytes_of_def)

lemma demo_manager_ok: "cm_stopCh demo_manager \<noteq> Some True" "buffer_usable demo_manager"
  by (simp_all add: demo_manager_def buffer_usable_def captureManager_def)

text \<open>
  The examples' arithmetic in \<^verbatim>\<open>float64\<close>: \<^verbatim>\<open>0.3 - 0.0\<close> is the \<^verbatim>\<open>float64\<close> of \<^verbatim>\<open>0.3\<close>,
  which times \<open>10 ^ 9\<close> rounds to 300000000; \<^verbatim>\<open>10.1 - 0.1\<close> rounds to exactly 10.
\<close>

lemma demo_sub_0_3: "f_sub (Fin f64_0_3) (Fin 0) = Fin f64_0_3"
  unfolding f64_0_3_def
  using round64_at[of 54 "5404319552844595 / 2 ^ 54"]
  by (simp add: round_half_even_def)

lemma demo_guard_0_3: "f_less (Fin 0) (Fin f64_0_3)" "f_less (Fin f64_0_3) (Fin 10)"
  by (simp_all add: f64_0_3_def)

lemma demo_duration_0_3: "duration_of (Fin f64_0_3) = Some 300000000"
  unfolding f64_0_3_def
  using round64_0_3_seconds by (simp add: duration_of_def trunc_def)

lemma demo_sub_10_1: "f_sub (Fin f64_10_1) (Fin f64_0_1) = Fin 10"
  unfolding f64_10_1_def f64_0_1_def
  using round64_10_1_minus_0_1 by simp

lemma demo_sub_100: "f_sub (Fin 100) (Fin 0) = Fin 100"
  using round64_100 by simp

lemma waits_two_parsed:
  assumes "cm_stopCh cm \<noteq> Some True" and "buffer_usable cm"
    and "leading_timestamp pf l1 = Some a" and "leading_timestamp pf l2 = Some b"
  shows "waits_of (captureLoop pf fs cm [l1, l2] None) =
       [None, if f_less (Fin 0) (f_sub b a) \<and> f_less (f_sub b a) (Fin 10)
              then duration_of (f_sub b a) else None]"
proof -
  let ?st = "\<lparr>lastTimestamp = Fin 0, first = True\<rparr>"
  from captureLines_timings[OF assms(1,2), of pf fs ?st "[l1, l2]" "[]"]
  obtain cm' fs' where "captureLines pf fs cm ?st [l1, l2] []
      = Returns (False, [] @ timings pf ?st [l1, l2], cm', fs')"
    by blast
  then show ?thesis
    by (simp add: waits_of_def captureLoop_def assms(3,4) timing_def Let_def)
qed

lemma demo_waits_10_1:
  "waits_of (captureLoop demo_parseFloat (demo_fs []) demo_manager
               [bytes_of ''0.1 A'', bytes_of ''10.1 B''] None) = [None, None]"
  using waits_two_parsed[OF demo_manager_ok demo_lines(2) demo_lines(4), of "demo_fs []"]
  unfolding demo_sub_10_1 by simp

theorem capture_wait_skips_long_gaps_witness:
  "cm_stopCh demo_manager \<noteq> Some True \<and> buffer_usable demo_manager
   \<and> waits_of (captureLoop demo_parseFloat (demo_fs []) demo_manager
                 [bytes_of ''0.0 A'', bytes_of ''0.3 B''] None) ! 1 = Some 300000000
   \<and> waits_of (captureLoop demo_parseFloat (demo_fs []) demo_manager
                 [bytes_of ''0.1 A'', bytes_of ''10.1 B''] None) = [None, None]"
proof -
  let ?lines = "[bytes_of ''0.0 A'', bytes_of ''0.3 B'']"
  have p: "(0::nat) < 1 \<and> 1 < length ?lines
              \<and> leading_timestamp demo_parseFloat (?lines ! 0) = Some (Fin 0)
              \<and> leading_timestamp demo_parseFloat (?lines ! 1) = Some (Fin f64_0_3)
              \<and> (\<forall>k. 0 < k \<and> k < 1 \<longrightarrow> leading_timestamp demo_parseFloat (?lines ! k) = None)"
    by (auto simp: demo_lines)
  from capture_wait_skips_long_gaps[OF demo_manager_ok, of demo_parseFloat "demo_fs []" ?lines None]
  show ?thesis
  proof (elim exE conjE, goal_cases)
    case (1 out cm' fs')
    note r = 1(1) and l = 1(2) and w = 1(6)
    from w[rule_format, OF p]
    have "slept (out ! 1) =
            (if f_less (Fin 0) (f_sub (Fin f64_0_3) (Fin 0))
                \<and> f_less (f_sub (Fin f64_0_3) (Fin 0)) (Fin 10)
             then duration_of (f_sub (Fin f64_0_3) (Fin 0)) else None)"
      by (rule conjunct1)
    then have "slept (out ! 1) = Some 300000000"
      unfolding demo_sub_0_3 using demo_guard_0_3 by (simp add: demo_duration_0_3)
    with r l demo_manager_ok demo_waits_10_1 show ?case by (simp add: waits_of_def)
  qed
qed

text \<open>
  Claim C1, as stated, fails: it has the reader wait 10 s when the timestamps are 10 s or
  more apart. For the lines \<^verbatim>\<open>0.0 A\<close> and \<^verbatim>\<open>100.0 B\<close> the delta is 100 s; the guard
  \<^verbatim>\<open>delta > 0 && delta < 10\<close> is false and the reader does not sleep at all.
\<close>

theorem capture_wait_cap_counterexample:
  "waits_of (captureLoop demo_parseFloat (demo_fs []) demo_manager
               [bytes_of ''0.0 A'', bytes_of ''100.0 B''] None) = [None, None]
   \<and> waits_of (captureLoop demo_parseFloat (demo_fs []) demo_manager
                 [bytes_of ''0.0 A'', bytes_of ''100.0 B''] None) ! 1 \<noteq> Some 10000000000"
  using waits_two_parsed[OF demo_manager_ok demo_lines(1) demo_lines(5), of "demo_fs []"]
  unfolding demo_sub_100 by simp

subsection \<open>The batch ingester\<close>

lemma exec_batch_nonneg: "0 \<le> fst (exec_batch fails i batch)"
proof (induction batch arbitrary: i)
  case Nil
  show ?case by simp
next
  case (Cons line lines)
  from Cons[of "Suc i"] show ?case
    by (cases "exec_batch fails (Suc i) lines") auto
qed

lemma ingested_of_set_LastError [simp]: "ingested_of (set_LastError st m) = ingested_of st"
  by (simp add: ingested_of_def set_LastError_def)

lemma ingested_of_update_status:
  "ingested_of (update_status env st ingested errs) = ingested_of st + ingested"
  by (simp add: ingested_of_def update_status_def Let_def)

lemma i_fs_set_LastError [simp]: "i_fs (set_LastError st m) = i_fs st"
  by (simp add: set_LastError_def)

lemma bufferImpl_set_LastError [simp]:
  "cm_bufferImpl (i_cm (set_LastError st m)) = cm_bufferImpl (i_cm st)"
  by (simp add: set_LastError_def)

lemma LastError_set_LastError [simp]:
  "LastError (cm_lastStatus (i_cm (set_LastError st m))) = m"
  by (simp add: set_LastError_def)

lemma cb_RemoveBatch_usable:
  "buffer_usable cm \<Longrightarrow> cm_bufferImpl cm = Some cb \<Longrightarrow> \<exists>e fs'. cb_RemoveBatch fs cb n = Returns (e, fs')"
  by (cases cb; cases "FIFO_RemoveBatch fs (the (backing_fifo cb)) n")
     (auto simp: buffer_usable_def cb_RemoveBatch_def RED_RemoveBatch_def split: option.splits)

lemma cb_ReadBatch_usable:
  "buffer_usable cm \<Longrightarrow> cm_bufferImpl cm = Some cb \<Longrightarrow> \<exists>r. cb_ReadBatch fs cb n = Returns r"
  by (cases cb) (auto simp: buffer_usable_def cb_ReadBatch_def split: option.splits)

text \<open>The outcomes of the transaction part of an iteration.\<close>

lemma ingest_batch_failed:
  assumes "i_db st = Some rows"
    and "begin_err (script env) = Some m
         \<or> begin_err (script env) = None \<and> prepare_err (script env) = Some m
         \<or> begin_err (script env) = None \<and> prepare_err (script env) = None
             \<and> commit_err (script env) = Some m"
  shows "\<exists>cs. ingest_batch env st batch = Returns (set_LastError st m, cs)
           \<and> (\<forall>n. RemoveBatchCall n \<notin> set cs)"
  using assms
  by (auto simp: ingest_batch_def Let_def split: prod.splits)

lemma ingest_batch_committed:
  assumes "i_db st = Some rows" and "buffer_usable (i_cm st)"
    and "begin_err (script env) = None" "prepare_err (script env) = None"
    and "commit_err (script env) = None"
  shows "\<exists>st1 cs pre. ingest_batch env st batch =
            Returns (update_status env st1 (fst (exec_batch (exec_fails (script env)) 0 batch))
                       (fst (snd (exec_batch (exec_fails (script env)) 0 batch))), cs)
           \<and> ingested_of st1 = ingested_of st
           \<and> (cs = pre @ [CommitCall] \<and> cm_bufferImpl (i_cm st) = None
              \<or> cs = pre @ [CommitCall, RemoveBatchCall (int (length batch))])
           \<and> (\<forall>n. RemoveBatchCall n \<notin> set pre)"
proof (cases "cm_bufferImpl (i_cm st)")
  case None
  with assms show ?thesis
    by (auto simp: ingest_batch_def Let_def ingested_of_def split: prod.splits)
next
  case (Some cb)
  from cb_RemoveBatch_usable[OF assms(2) Some, of "i_fs st" "int (length batch)"]
  obtain e fs' where "cb_RemoveBatch (i_fs st) cb (int (length batch)) = Returns (e, fs')"
    by blast
  with Some assms show ?thesis
    by (auto simp: ingest_batch_def Let_def ingested_of_def split: prod.splits)
qed

lemma ingest_batch_nodb:
  "i_db st = None \<Longrightarrow> ingest_batch env st batch = Returns (set_LastError st ''captureDB not set'', [])"
  by (simp add: ingest_batch_def)

lemma tx_outcome:
  obtains (failed) m where "begin_err (script env) = Some m
         \<or> begin_err (script env) = None \<and> prepare_err (script env) = Some m
         \<or> begin_err (script env) = None \<and> prepare_err (script env) = None
             \<and> commit_err (script env) = Some m"
  | (succeeds) "begin_err (script env) = None" "prepare_err (script env) = None"
      "commit_err (script env) = None"
  by (cases "begin_err (script env)"; cases "prepare_err (script env)";
      cases "commit_err (script env)") auto

lemma ingest_batch_no_ghost_ack:
  assumes "buffer_usable (i_cm st)"
  shows "\<exists>st' cs. ingest_batch env st batch = Returns (st', cs) \<and> no_ghost_ack env st st' cs"
proof (cases "i_db st")
  case None
  then show ?thesis by (simp add: ingest_batch_nodb no_ghost_ack_def)
next
  case (Some rows)
  show ?thesis
  proof (cases rule: tx_outcome[of env])
    case (failed m)
    from ingest_batch_failed[OF Some failed, of batch] show ?thesis
      by (auto simp: no_ghost_ack_def)
  next
    case succeeds
    from ingest_batch_committed[OF Some assms succeeds, of batch]
    obtain st1 cs pre where
      r: "ingest_batch env st batch =
            Returns (update_status env st1 (fst (exec_batch (exec_fails (script env)) 0 batch))
                       (fst (snd (exec_batch (exec_fails (script env)) 0 batch))), cs)"
      and i: "ingested_of st1 = ingested_of st"
      and c: "cs = pre @ [CommitCall] \<and> cm_bufferImpl (i_cm st) = None
              \<or> cs = pre @ [CommitCall, RemoveBatchCall (int (length batch))]"
      by blast
    from c have "CommitCall \<in> set cs" by auto
    with r i succeeds exec_batch_nonneg[of "exec_fails (script env)" 0 batch] show ?thesis
      by (auto simp: no_ghost_ack_def tx_fails_def ingested_of_update_status)
  qed
qed

lemma no_ghost_ack_refl: "no_ghost_ack env st st cs"
  by (simp add: no_ghost_ack_def)

lemma after_read_no_ghost_ack:
  assumes "buffer_usable (i_cm st)"
  shows "\<exists>st' cs. after_read env st batch calls = Returns (Continue st', cs)
           \<and> no_ghost_ack env st st' cs"
proof (cases "batch = []")
  case True
  then show ?thesis by (simp add: after_read_def no_ghost_ack_refl)
next
  case False
  from ingest_batch_no_ghost_ack[OF assms, of env batch]
  obtain st' cs where "ingest_batch env st batch = Returns (st', cs)" "no_ghost_ack env st st' cs"
    by blast
  with False show ?thesis
    by (auto simp: after_read_def no_ghost_ack_def)
qed

lemma ingestIter_no_ghost_ack:
  assumes "buffer_usable (i_cm st)"
  shows "\<exists>r cs. ingestIter env st = Returns (r, cs) \<and> no_ghost_ack env st (step_state r) cs"
proof (cases "cm_stopped (i_cm st)")
  case True
  then show ?thesis by (simp add: ingestIter_def ingested_of_def no_ghost_ack_def)
next
  case False
  show ?thesis
  proof (cases "cm_bufferImpl (i_cm st)")
    case None
    let ?st0 = "st\<lparr>i_cm := (i_cm st)\<lparr>cm_buffer := []\<rparr>\<rparr>"
    have "buffer_usable (i_cm ?st0)" using None by (simp add: buffer_usable_def)
    from after_read_no_ghost_ack[OF this, of env "cm_buffer (i_cm st)" "[]"]
    obtain st' cs where "after_read env ?st0 (cm_buffer (i_cm st)) [] = Returns (Continue st', cs)"
      "no_ghost_ack env ?st0 st' cs" by blast
    moreover have "ingested_of ?st0 = ingested_of st" by (simp add: ingested_of_def)
    ultimately show ?thesis
      using False None by (auto simp: ingestIter_def no_ghost_ack_def)
  next
    case (Some cb)
    from cb_ReadBatch_usable[OF assms Some, of "i_fs st" 256]
    obtain r where r: "cb_ReadBatch (i_fs st) cb 256 = Returns r" by blast
    show ?thesis
    proof (cases r)
      case (Inl e)
      with r False Some show ?thesis by (simp add: ingestIter_def no_ghost_ack_def)
    next
      case (Inr batch)
      from after_read_no_ghost_ack[OF assms, of env batch "[ReadBatchCall 256]"]
      obtain st' cs where "after_read env st batch [ReadBatchCall 256] = Returns (Continue st', cs)"
        "no_ghost_ack env st st' cs" by blast
      with r Inr False Some show ?thesis
        by (auto simp: ingestIter_def)
    qed
  qed
qed

text \<open>Over a run of the loop, for any number of iterations.\<close>

lemma bufferImpl_update_status [simp]:
  "cm_bufferImpl (i_cm (update_status env st ingested errs)) = cm_bufferImpl (i_cm st)"
  by (simp add: update_status_def Let_def)

lemma ingest_batch_keeps_buffer:
  "ingest_batch env st batch = Returns (st', cs) \<Longrightarrow>
     cm_bufferImpl (i_cm st') = cm_bufferImpl (i_cm st)"
  by (auto simp: ingest_batch_def Let_def
           split: option.splits prod.splits run.splits)

lemma ingestIter_keeps_buffer:
  "ingestIter env st = Returns (r, cs) \<Longrightarrow>
     cm_bufferImpl (i_cm (step_state r)) = cm_bufferImpl (i_cm st)"
  by (auto simp: ingestIter_def after_read_def
           split: if_splits option.splits run.splits sum.splits prod.splits
           dest: ingest_batch_keeps_buffer)

lemma ingestLoop_no_ghost_ack:
  assumes "buffer_usable (i_cm st)"
  shows "\<exists>r cs. ingestLoop envs st = Returns (r, cs)
     \<and> ingested_of st \<le> ingested_of (step_state r)
     \<and> ((\<forall>env\<in>set envs. tx_fails env) \<longrightarrow> ingested_of (step_state r) = ingested_of st)"
  using assms
proof (induction envs arbitrary: st)
  case Nil
  show ?case by simp
next
  case (Cons env envs)
  from ingestIter_no_ghost_ack[OF Cons.prems, of env]
  obtain r cs where it: "ingestIter env st = Returns (r, cs)"
    and mono: "ingested_of st \<le> ingested_of (step_state r)"
    and fail: "tx_fails env \<longrightarrow> ingested_of (step_state r) = ingested_of st"
    unfolding no_ghost_ack_def by blast
  show ?case
  proof (cases r)
    case (Return st')
    with it mono fail show ?thesis by simp
  next
    case (Continue st')
    from ingestIter_keeps_buffer[OF it] Continue Cons.prems
    have "buffer_usable (i_cm st')" by (simp add: buffer_usable_def)
    from Cons.IH[OF this]
    obtain r' cs' where "ingestLoop envs st' = Returns (r', cs')"
      "ingested_of st' \<le> ingested_of (step_state r')"
      "(\<forall>env\<in>set envs. tx_fails env) \<longrightarrow> ingested_of (step_state r') = ingested_of st'"
      by blast
    with it mono fail Continue show ?thesis by auto
  qed
qed

text \<open>
  Claim C2. In every iteration of the ingest loop, from every state: the \<^verbatim>\<open>Ingested\<close>
  counter does not decrease; when \<^verbatim>\<open>Begin\<close>, \<^verbatim>\<open>Prepare\<close> or \<^verbatim>\<open>Commit\<close> fails it is
  unchanged; and when it has changed, none of the three failed and the iteration called
  \<^verbatim>\<open>Commit\<close>. The counter is updated in the branch that follows the successful commit.
\<close>

theorem ingested_only_after_commit:
  assumes "buffer_usable (i_cm st)"
  shows "\<exists>r cs. ingestIter env st = Returns (r, cs)
     \<and> ingested_of st \<le> ingested_of (step_state r)
     \<and> (tx_fails env \<longrightarrow> ingested_of (step_state r) = ingested_of st)
     \<and> (ingested_of (step_state r) \<noteq> ingested_of st \<longrightarrow> \<not> tx_fails env \<and> CommitCall \<in> set cs)"
proof -
  from ingestIter_no_ghost_ack[OF assms, of env]
  obtain r cs where "ingestIter env st = Returns (r, cs)"
    and "no_ghost_ack env st (step_state r) cs"
    by blast
  then show ?thesis
    unfolding no_ghost_ack_def by blast
qed

lemma cb_ReadBatch_Returns_usable:
  "cm_bufferImpl cm = Some cb \<Longrightarrow> cb_ReadBatch fs cb n = Returns r \<Longrightarrow> buffer_usable cm"
  by (cases cb) (auto simp: buffer_usable_def cb_ReadBatch_def split: option.splits)

text \<open>
  Claim C3. An iteration that reads a non-empty batch from the buffer and reaches the
  store: when \<^verbatim>\<open>Begin\<close> or \<^verbatim>\<open>Commit\<close> fails, \<^verbatim>\<open>RemoveBatch\<close> is not called, the file
  system is unchanged, the error is the last error of the status, and reading the buffer
  again returns the same batch. Whenever \<^verbatim>\<open>RemoveBatch\<close> is called, the transaction has
  succeeded, the call follows \<^verbatim>\<open>Commit\<close> directly and is the only one, and its argument
  is the length of the batch read.
\<close>

theorem failed_tx_keeps_batch:
  assumes "\<not> cm_stopped (i_cm st)" and "cm_bufferImpl (i_cm st) = Some cb"
    and "cb_ReadBatch (i_fs st) cb 256 = Returns (Inr batch)" and "batch \<noteq> []"
    and "i_db st = Some rows"
  shows "\<exists>st' cs. ingestIter env st = Returns (Continue st', cs)
    \<and> (\<forall>m. begin_err (script env) = Some m
             \<or> begin_err (script env) = None \<and> prepare_err (script env) = None
                 \<and> commit_err (script env) = Some m
          \<longrightarrow> (\<forall>n. RemoveBatchCall n \<notin> set cs)
              \<and> i_fs st' = i_fs st \<and> cm_bufferImpl (i_cm st') = Some cb
              \<and> LastError (cm_lastStatus (i_cm st')) = m
              \<and> cb_ReadBatch (i_fs st') cb 256 = Returns (Inr batch))
    \<and> (\<forall>n. RemoveBatchCall n \<in> set cs
          \<longrightarrow> n = int (length batch) \<and> \<not> tx_fails env
              \<and> (\<exists>pre. cs = pre @ [CommitCall, RemoveBatchCall n]
                       \<and> (\<forall>k. RemoveBatchCall k \<notin> set pre)))"
proof -
  have it: "ingestIter env st =
      (case ingest_batch env st batch of
         Panics \<Rightarrow> Panics
       | Returns (st', cs) \<Rightarrow> Returns (Continue st', [ReadBatchCall 256] @ cs))"
    using assms(1-4) by (simp add: ingestIter_def after_read_def)
  have usable: "buffer_usable (i_cm st)"
    using assms(2,3) by (rule cb_ReadBatch_Returns_usable)
  show ?thesis
  proof (cases rule: tx_outcome[of env])
    case (failed m)
    from ingest_batch_failed[OF assms(5) failed, of batch]
    obtain cs where b: "ingest_batch env st batch = Returns (set_LastError st m, cs)"
      "\<forall>n. RemoveBatchCall n \<notin> set cs" by blast
    have "ingestIter env st = Returns (Continue (set_LastError st m), [ReadBatchCall 256] @ cs)"
      using it b(1) by simp
    moreover have "\<forall>n. RemoveBatchCall n \<notin> set ([ReadBatchCall 256] @ cs)"
      using b(2) by simp
    moreover have "\<forall>m'. begin_err (script env) = Some m'
             \<or> begin_err (script env) = None \<and> prepare_err (script env) = None
                 \<and> commit_err (script env) = Some m' \<longrightarrow> m' = m"
      using failed by auto
    ultimately show ?thesis
      using assms(2,3) by (intro exI[of _ "set_LastError st m"] exI[of _ "[ReadBatchCall 256] @ cs"]) auto
  next
    case succeeds
    from ingest_batch_committed[OF assms(5) usable succeeds, of batch]
    obtain st1 cs pre where
      r: "ingest_batch env st batch =
            Returns (update_status env st1 (fst (exec_batch (exec_fails (script env)) 0 batch))
                       (fst (snd (exec_batch (exec_fails (script env)) 0 batch))), cs)"
      and c: "cs = pre @ [CommitCall] \<and> cm_bufferImpl (i_cm st) = None
              \<or> cs = pre @ [CommitCall, RemoveBatchCall (int (length batch))]"
      and p: "\<forall>n. RemoveBatchCall n \<notin> set pre"
      by blast
    from c assms(2) have cs: "cs = pre @ [CommitCall, RemoveBatchCall (int (length batch))]"
      by simp
    let ?st' = "update_status env st1 (fst (exec_batch (exec_fails (script env)) 0 batch))
                       (fst (snd (exec_batch (exec_fails (script env)) 0 batch)))"
    have "ingestIter env st = Returns (Continue ?st', [ReadBatchCall 256] @ cs)"
      using it r by simp
    moreover have "\<not> tx_fails env" using succeeds by (simp add: tx_fails_def)
    moreover have "[ReadBatchCall 256] @ cs
        = ([ReadBatchCall 256] @ pre) @ [CommitCall, RemoveBatchCall (int (length batch))]"
      using cs by simp
    moreover have "\<forall>k. RemoveBatchCall k \<notin> set ([ReadBatchCall 256] @ pre)"
      using p by simp
    moreover have "\<forall>n. RemoveBatchCall n \<in> set ([ReadBatchCall 256] @ cs) \<longrightarrow> n = int (length batch)"
      using p cs by auto
    ultimately have
      it': "ingestIter env st = Returns (Continue ?st', [ReadBatchCall 256] @ cs)"
      and nf: "\<not> tx_fails env"
      and sp: "[ReadBatchCall 256] @ cs
        = ([ReadBatchCall 256] @ pre) @ [CommitCall, RemoveBatchCall (int (length batch))]"
      and np: "\<forall>k. RemoveBatchCall k \<notin> set ([ReadBatchCall 256] @ pre)"
      and len: "\<forall>n. RemoveBatchCall n \<in> set ([ReadBatchCall 256] @ cs) \<longrightarrow> n = int (length batch)"
      by blast+
    show ?thesis
    proof (intro exI conjI)
      show "ingestIter env st = Returns (Continue ?st', [ReadBatchCall 256] @ cs)" by (fact it')
      show "\<forall>m. begin_err (script env) = Some m
             \<or> begin_err (script env) = None \<and> prepare_err (script env) = None
                 \<and> commit_err (script env) = Some m
          \<longrightarrow> (\<forall>n. RemoveBatchCall n \<notin> set ([ReadBatchCall 256] @ cs))
              \<and> i_fs ?st' = i_fs st \<and> cm_bufferImpl (i_cm ?st') = Some cb
              \<and> LastError (cm_lastStatus (i_cm ?st')) = m
              \<and> cb_ReadBatch (i_fs ?st') cb 256 = Returns (Inr batch)"
        using succeeds by simp
      show "\<forall>n. RemoveBatchCall n \<in> set ([ReadBatchCall 256] @ cs)
          \<longrightarrow> n = int (length batch) \<and> \<not> tx_fails env
              \<and> (\<exists>pre. [ReadBatchCall 256] @ cs = pre @ [CommitCall, RemoveBatchCall n]
                       \<and> (\<forall>k. RemoveBatchCall k \<notin> set pre))"
      proof (intro allI impI)
        fix n assume "RemoveBatchCall n \<in> set ([ReadBatchCall 256] @ cs)"
        with len have n: "n = int (length batch)" by blast
        from sp np n have "\<exists>pre. [ReadBatchCall 256] @ cs = pre @ [CommitCall, RemoveBatchCall n]
                       \<and> (\<forall>k. RemoveBatchCall k \<notin> set pre)"
          by blast
        with n nf show "n = int (length batch) \<and> \<not> tx_fails env
              \<and> (\<exists>pre. [ReadBatchCall 256] @ cs = pre @ [CommitCall, RemoveBatchCall n]
                       \<and> (\<forall>k. RemoveBatchCall k \<notin> set pre))"
          by blast
      qed
    qed
  qed
qed

lemma demo_read:
  "cb_ReadBatch (demo_fs [0, 0, 0, 1, 65]) (FIFO (Some demo_buffer)) 256 = Returns (Inr [[65]])"
proof -
  have "readBatchFromDisk (demo_fs [0, 0, 0, 1, 65]) ''capture_buffer.dat'' 256
          = Inr (take (nat 256) [[65]])"
    by (rule readBatch_frames[where i = 0])
       (simp_all add: demo_fs_def encode_frames_def frame_def put_be32_def maxRW_def)
  then show ?thesis
    by (simp add: cb_ReadBatch_def FIFO_ReadBatch_def demo_buffer_def)
qed

theorem failed_tx_keeps_batch_witness:
  "\<not> cm_stopped (i_cm demo_ingest)
   \<and> cm_bufferImpl (i_cm demo_ingest) = Some (FIFO (Some demo_buffer))
   \<and> cb_ReadBatch (i_fs demo_ingest) (FIFO (Some demo_buffer)) 256 = Returns (Inr [[65]])
   \<and> [[65::byte]] \<noteq> []
   \<and> i_db demo_ingest = Some []
   \<and> commit_err (script (demo_env (Some ''database is locked''))) = Some ''database is locked''
   \<and> (\<exists>st' cs. ingestIter (demo_env (Some ''database is locked'')) demo_ingest
                    = Returns (Continue st', cs)
          \<and> (\<forall>n. RemoveBatchCall n \<notin> set cs)
          \<and> i_fs st' = i_fs demo_ingest
          \<and> LastError (cm_lastStatus (i_cm st')) = ''database is locked''
          \<and> cb_ReadBatch (i_fs st') (FIFO (Some demo_buffer)) 256 = Returns (Inr [[65]]))"
proof -
  let ?env = "demo_env (Some ''database is locked'')"
  have h1: "\<not> cm_stopped (i_cm demo_ingest)"
    by (simp add: demo_ingest_def demo_manager_def captureManager_def)
  have h2: "cm_bufferImpl (i_cm demo_ingest) = Some (FIFO (Some demo_buffer))"
    by (simp add: demo_ingest_def demo_manager_def)
  have h3: "cb_ReadBatch (i_fs demo_ingest) (FIFO (Some demo_buffer)) 256 = Returns (Inr [[65]])"
    using demo_read by (simp add: demo_ingest_def)
  have h4: "[[65::byte]] \<noteq> []" by simp
  have h5: "i_db demo_ingest = Some []" by (simp add: demo_ingest_def)
  have e: "begin_err (script ?env) = None" "prepare_err (script ?env) = None"
    "commit_err (script ?env) = Some ''database is locked''"
    by (simp_all add: demo_env_def)
  from failed_tx_keeps_batch[OF h1 h2 h3 h4 h5, of ?env]
  obtain st' cs where r: "ingestIter ?env demo_ingest = Returns (Continue st', cs)"
    and f: "\<forall>m. begin_err (script ?env) = Some m
             \<or> begin_err (script ?env) = None \<and> prepare_err (script ?env) = None
                 \<and> commit_err (script ?env) = Some m
          \<longrightarrow> (\<forall>n. RemoveBatchCall n \<notin> set cs)
              \<and> i_fs st' = i_fs demo_ingest \<and> cm_bufferImpl (i_cm st') = Some (FIFO (Some demo_buffer))
              \<and> LastError (cm_lastStatus (i_cm st')) = m
              \<and> cb_ReadBatch (i_fs st') (FIFO (Some demo_buffer)) 256 = Returns (Inr [[65]])"
    by blast
  from f[rule_format, of "''database is locked''"] e
  have "(\<forall>n. RemoveBatchCall n \<notin> set cs)
      \<and> i_fs st' = i_fs demo_ingest
      \<and> LastError (cm_lastStatus (i_cm st')) = ''database is locked''
      \<and> cb_ReadBatch (i_fs st') (FIFO (Some demo_buffer)) 256 = Returns (Inr [[65]])"
    using h3 by simp
  with r h1 h2 h3 h4 h5 e(3) show ?thesis by blast
qed

lemma demo_commit:
  "\<exists>st' cs. ingestIter (demo_env None) demo_ingest = Returns (Continue st', cs)
      \<and> ingested_of st' = 1 \<and> file_at (i_fs st') ''capture_buffer.dat'' = Some []
      \<and> i_db st' = Some [[65]]
      \<and> cs = [ReadBatchCall 256, BeginCall, PrepareCall, ExecCall [65], StmtCloseCall, CommitCall,
               RemoveBatchCall 1]"
proof -
  have rm: "removeBatchFromDisk (demo_fs [0, 0, 0, 1, 65]) ''capture_buffer.dat'' 1
      = (None, (demo_fs [0, 0, 0, 1, 65])\<lparr>contents := (contents (demo_fs [0, 0, 0, 1, 65]))(0 := [])\<rparr>)"
    by (rule removeBatch_truncates[where rs = "[[65]]"])
       (simp_all add: demo_fs_def encode_frames_def frame_def put_be32_def)
  show ?thesis
    using demo_read rm
    by (simp add: ingestIter_def after_read_def ingest_batch_def demo_ingest_def demo_manager_def
        captureManager_def demo_env_def cb_RemoveBatch_def FIFO_RemoveBatch_def demo_buffer_def
        update_status_def ingested_of_def zero_status_def Let_def file_at_def demo_fs_def)
qed

lemma demo_usable: "buffer_usable (i_cm demo_ingest)"
  by (simp add: demo_ingest_def demo_manager_def buffer_usable_def)

theorem ingested_only_after_commit_witness:
  "buffer_usable (i_cm demo_ingest)
   \<and> tx_fails (demo_env (Some ''database is locked''))
   \<and> (\<exists>r cs. ingestIter (demo_env (Some ''database is locked'')) demo_ingest = Returns (r, cs)
          \<and> ingested_of (step_state r) = ingested_of demo_ingest)
   \<and> (\<exists>st' cs. ingestIter (demo_env None) demo_ingest = Returns (Continue st', cs)
          \<and> ingested_of st' = 1 \<and> CommitCall \<in> set cs)"
proof -
  have t: "tx_fails (demo_env (Some ''database is locked''))"
    by (simp add: tx_fails_def demo_env_def)
  from ingested_only_after_commit[OF demo_usable, of "demo_env (Some ''database is locked'')"] t
  have "\<exists>r cs. ingestIter (demo_env (Some ''database is locked'')) demo_ingest = Returns (r, cs)
          \<and> ingested_of (step_state r) = ingested_of demo_ingest"
    by blast
  moreover from demo_commit
  have "\<exists>st' cs. ingestIter (demo_env None) demo_ingest = Returns (Continue st', cs)
          \<and> ingested_of st' = 1 \<and> CommitCall \<in> set cs"
    by auto
  ultimately show ?thesis using demo_usable t by blast
qed


subsection \<open>Starting a capture\<close>

lemma start_source_open_fails:
  "\<not> cm_ingesting cm \<Longrightarrow> os_Open fs logPath = Inl e \<Longrightarrow>
     StartSimulatedCapture fs cm logPath now = (Some e, cm, fs)"
  by (simp add: StartSimulatedCapture_def)

lemma after_failed_start_eq:
  "StartSimulatedCapture locked_fs captureManager ''capture.log'' 0 =
     (Some (PathError ''open'' ''capture_buffer.dat'' EACCES),
      captureManager\<lparr>cm_file := Some ((new_handle ''capture.log'' 1 False)\<lparr>h_closed := True\<rparr>),
                     cm_stopCh := Some False, cm_ingesting := True,
                     cm_lastStatus := zero_status\<lparr>Ingesting := True\<rparr>,
                     cm_bufferFilePath := ''capture_buffer.dat'',
                     cm_bufferImpl := Some (FIFO None)\<rparr>,
      locked_fs)"
  by (simp add: StartSimulatedCapture_def captureManager_def locked_fs_def os_Open_def
      select_buffer_def NewFIFOBuffer_def os_OpenFile_append_def f_Close_def new_handle_def
      zero_status_def Let_def)

text \<open>
  Claim C6 is what the code should do and does not. When the source file cannot be opened
  the manager is left as it was (\<open>start_source_open_fails\<close>). When the buffer file cannot
  be opened, \<^verbatim>\<open>StartSimulatedCapture\<close> closes the source file and returns the error, but
  it has already set \<^verbatim>\<open>ingesting\<close> and does not reset it: the next start is rejected
  with ``capture already running'', also once the file can be opened. The interface field
  is left holding the constructor's nil pointer, on which the status call and the stop
  call panic.
\<close>

theorem start_failure_leaves_manager_running:
  "fst (StartSimulatedCapture locked_fs captureManager ''capture.log'' 0)
      = Some (PathError ''open'' ''capture_buffer.dat'' EACCES)
   \<and> cm_ingesting after_failed_start
   \<and> cm_bufferImpl after_failed_start = Some (FIFO None)
   \<and> fst (StartSimulatedCapture unlocked_fs after_failed_start ''capture.log'' 1)
        = Some ErrAlreadyRunning
   \<and> GetCaptureStatus unlocked_fs after_failed_start 1 = Panics
   \<and> StopSimulatedCapture after_failed_start = Panics"
proof -
  have cm: "cm_ingesting after_failed_start" "cm_bufferImpl after_failed_start = Some (FIFO None)"
    "\<not> cm_stopped after_failed_start" "cm_stopCh after_failed_start = Some False"
    unfolding after_failed_start_def after_failed_start_eq
    by (simp_all add: captureManager_def)
  have "fst (StartSimulatedCapture unlocked_fs after_failed_start ''capture.log'' 1)
        = Some ErrAlreadyRunning"
    using cm(1) by (simp add: StartSimulatedCapture_def)
  moreover have "GetCaptureStatus unlocked_fs after_failed_start 1 = Panics"
    using cm(2) by (simp add: GetCaptureStatus_def cb_SizeBytes_def Let_def)
  moreover have "StopSimulatedCapture after_failed_start = Panics"
    using cm by (simp add: StopSimulatedCapture_def cb_Close_def Let_def)
  ultimately show ?thesis
    using cm(1,2) by (simp add: after_failed_start_eq)
qed

subsection \<open>The status handler\<close>

lemma split_lines_nonempty [simp]: "split_lines s \<noteq> []"
  by (induction s) (auto split: list.splits)

lemma split_lines_append:
  "split_lines (a @ newline # b) = split_lines a @ split_lines b"
proof (induction a)
  case Nil
  show ?case by simp
next
  case (Cons c a)
  obtain l ls where "split_lines a = l # ls"
    by (cases "split_lines a") simp_all
  with Cons show ?case by simp
qed

lemma split_lines_head:
  "newline \<notin> set p \<Longrightarrow> \<exists>l ls. split_lines (p @ s) = (p @ l) # ls"
proof (induction p)
  case Nil
  show ?case by (cases "split_lines s") simp_all
next
  case (Cons c p)
  then obtain l ls where "split_lines (p @ s) = (p @ l) # ls" by auto
  with Cons.prems show ?case by auto
qed

lemma has_key_line_first:
  assumes "newline \<notin> set key"
  shows "has_key_line key (key @ '': '' @ rest)"
proof -
  have "newline \<notin> set (key @ '': '')" using assms by (simp add: newline_def)
  from split_lines_head[OF this, of rest]
  obtain l ls where "split_lines ((key @ '': '') @ rest) = ((key @ '': '') @ l) # ls" by blast
  then show ?thesis by (simp add: has_key_line_def)
qed

lemma has_key_line_after:
  assumes "newline \<notin> set key"
  shows "has_key_line key (pre @ newline # key @ '': '' @ rest)"
proof -
  from has_key_line_first[OF assms, of rest]
  have "list_ex (\<lambda>l. prefix (key @ '': '') l) (split_lines (key @ '': '' @ rest))"
    by (simp add: has_key_line_def)
  then show ?thesis
    by (auto simp: has_key_line_def split_lines_append list_ex_iff)
qed

lemma GetCaptureStatus_usable:
  "buffer_usable cm \<Longrightarrow> \<exists>status. GetCaptureStatus fs cm now = Returns status"
  by (cases "cm_bufferImpl cm")
     (auto simp: GetCaptureStatus_def buffer_usable_def cb_SizeBytes_def Let_def
           split: CaptureBuffer.splits option.splits)

text \<open>
  Claim C8, amended. Whenever the handler answers (the manager's buffer is not a nil
  pointer), the body has a line for each of the eight keys of the format string:
  \<^verbatim>\<open>BufferLen\<close>, \<^verbatim>\<open>Ingesting\<close>, \<^verbatim>\<open>Stopped\<close>, \<^verbatim>\<open>Ingested\<close>, \<^verbatim>\<open>LastError\<close>,
  \<^verbatim>\<open>LastUpdated\<close>, \<^verbatim>\<open>IngestRateEPS\<close> and \<^verbatim>\<open>ErrorCount\<close>, whatever the values are.
\<close>

theorem status_body_lines:
  assumes "buffer_usable cm"
  shows "\<exists>body. CaptureStatusHandler rfc3339 fmt_f2 fs cm now = Returns body
     \<and> has_key_line ''BufferLen'' body \<and> has_key_line ''Ingesting'' body
     \<and> has_key_line ''Stopped'' body \<and> has_key_line ''Ingested'' body
     \<and> has_key_line ''LastError'' body \<and> has_key_line ''LastUpdated'' body
     \<and> has_key_line ''IngestRateEPS'' body \<and> has_key_line ''ErrorCount'' body"
proof -
  from GetCaptureStatus_usable[OF assms]
  obtain status where g: "GetCaptureStatus fs cm now = Returns status" by blast
  define v1 where "v1 = fmt_d (BufferLen status)"
  define v2 where "v2 = fmt_v (Ingesting status)"
  define v3 where "v3 = fmt_v (Stopped status)"
  define v4 where "v4 = fmt_d (Ingested status)"
  define v5 where "v5 = LastError status"
  define v6 where "v6 = rfc3339 (LastUpdated status)"
  define v7 where "v7 = fmt_f2 (IngestRateEPS status)"
  define v8 where "v8 = fmt_d (ErrorCount status)"
  define l1 where "l1 = ''BufferLen'' @ '': '' @ v1"
  define l2 where "l2 = ''Ingesting'' @ '': '' @ v2"
  define l3 where "l3 = ''Stopped'' @ '': '' @ v3"
  define l4 where "l4 = ''Ingested'' @ '': '' @ v4"
  define l5 where "l5 = ''LastError'' @ '': '' @ v5"
  define l6 where "l6 = ''LastUpdated'' @ '': '' @ v6"
  define l7 where "l7 = ''IngestRateEPS'' @ '': '' @ v7"
  define l8 where "l8 = ''ErrorCount'' @ '': '' @ v8"
  define body where "body = l1 @ newline # l2 @ newline # l3 @ newline # l4 @ newline # l5
      @ newline # l6 @ newline # l7 @ newline # l8 @ [newline]"
  have h: "CaptureStatusHandler rfc3339 fmt_f2 fs cm now = Returns body"
    using g
    by (simp add: CaptureStatusHandler_def body_def l1_def l2_def l3_def l4_def l5_def l6_def
        l7_def l8_def v1_def v2_def v3_def v4_def v5_def v6_def v7_def v8_def)
  have k1: "has_key_line ''BufferLen'' body"
    unfolding body_def l1_def
    using has_key_line_first[of "''BufferLen''"] by (simp add: newline_def)
  have k2: "has_key_line ''Ingesting'' body"
    using has_key_line_after[of "''Ingesting''" l1]
    by (simp add: body_def l2_def newline_def)
  have k3: "has_key_line ''Stopped'' body"
    using has_key_line_after[of "''Stopped''" "l1 @ newline # l2"]
    by (simp add: body_def l3_def newline_def)
  have k4: "has_key_line ''Ingested'' body"
    using has_key_line_after[of "''Ingested''" "l1 @ newline # l2 @ newline # l3"]
    by (simp add: body_def l4_def newline_def)
  have k5: "has_key_line ''LastError'' body"
    using has_key_line_after[of "''LastError''" "l1 @ newline # l2 @ newline # l3 @ newline # l4"]
    by (simp add: body_def l5_def newline_def)
  have k6: "has_key_line ''LastUpdated'' body"
    using has_key_line_after[of "''LastUpdated''"
        "l1 @ newline # l2 @ newline # l3 @ newline # l4 @ newline # l5"]
    by (simp add: body_def l6_def newline_def)
  have k7: "has_key_line ''IngestRateEPS'' body"
    using has_key_line_after[of "''IngestRateEPS''"
        "l1 @ newline # l2 @ newline # l3 @ newline # l4 @ newline # l5 @ newline # l6"]
    by (simp add: body_def l7_def newline_def)
  have k8: "has_key_line ''ErrorCount'' body"
    using has_key_line_after[of "''ErrorCount''"
        "l1 @ newline # l2 @ newline # l3 @ newline # l4 @ newline # l5 @ newline # l6 @ newline # l7"]
    by (simp add: body_def l8_def newline_def)
  from h k1 k2 k3 k4 k5 k6 k7 k8 show ?thesis by blast
qed

lemma char_of_48: "char_of (48::nat) = CHR ''0''"
  by code_simp

lemma demo_status_body:
  "CaptureStatusHandler demo_rfc3339 demo_f2 (demo_fs [0, 0, 0, 1, 65]) demo_manager 0 =
     Returns (''BufferLen: 0'' @ [newline] @ ''Ingesting: true'' @ [newline]
       @ ''Stopped: false'' @ [newline] @ ''Ingested: 0'' @ [newline]
       @ ''LastError: '' @ [newline] @ ''LastUpdated: 0001-01-01T00:00:00Z'' @ [newline]
       @ ''IngestRateEPS: 0.00'' @ [newline] @ ''ErrorCount: 0'' @ [newline])"
  by (simp add: CaptureStatusHandler_def GetCaptureStatus_def demo_manager_def captureManager_def
      zero_status_def cb_SizeBytes_def FIFO_SizeBytes_def f_Stat_Size_def demo_buffer_def
      new_handle_def demo_fs_def fmt_d_def fmt_v_def nat_str.simps[of 0] char_of_48 demo_rfc3339_def
      demo_f2_def Let_def)

text \<open>
  Claim C8, as stated, fails: the format string of \<^verbatim>\<open>CaptureStatusHandler\<close> has no
  \<^verbatim>\<open>DiskBufferBytes\<close>. For a running manager with one record in its buffer file the body
  has a \<^verbatim>\<open>BufferLen\<close> line and no \<^verbatim>\<open>DiskBufferBytes\<close> line.
\<close>

theorem status_body_no_disk_bytes_counterexample:
  "response_has_key ''BufferLen''
      (CaptureStatusHandler demo_rfc3339 demo_f2 (demo_fs [0, 0, 0, 1, 65]) demo_manager 0)
   \<and> \<not> response_has_key ''DiskBufferBytes''
      (CaptureStatusHandler demo_rfc3339 demo_f2 (demo_fs [0, 0, 0, 1, 65]) demo_manager 0)"
  by (simp add: demo_status_body response_has_key_def has_key_line_def newline_def)

theorem status_body_lines_witness:
  "buffer_usable demo_manager
   \<and> response_has_key ''Ingested''
        (CaptureStatusHandler demo_rfc3339 demo_f2 (demo_fs [0, 0, 0, 1, 65]) demo_manager 0)
   \<and> response_has_key ''ErrorCount''
        (CaptureStatusHandler demo_rfc3339 demo_f2 (demo_fs [0, 0, 0, 1, 65]) demo_manager 0)"
proof -
  have u: "buffer_usable demo_manager"
    by (simp add: demo_manager_def buffer_usable_def)
  from status_body_lines[OF u, of demo_rfc3339 demo_f2 "demo_fs [0, 0, 0, 1, 65]" 0] u
  show ?thesis by (auto simp: response_has_key_def)
qed

end
